theory Spec2Isabelle
  imports Complex_Main "HOL-Library.Word" "HOL-Library.Multiset"
begin

section \<open>Models (main.go, lines 26-71)\<close>

text \<open>
  Instants of \<^verbatim>\<open>time.Time\<close> are integers (nanoseconds on one clock); the zero
  \<^verbatim>\<open>Time\<close> is \<open>0\<close>. \<^verbatim>\<open>t.After(u)\<close> is the strict order.
\<close>

type_synonym Time = int

definition IsZero :: "Time \<Rightarrow> bool" where
  "IsZero t \<longleftrightarrow> t = 0"

definition After :: "Time \<Rightarrow> Time \<Rightarrow> bool" where
  "After t u \<longleftrightarrow> u < t"

text \<open>
  \<^verbatim>\<open>Option\<close>: Go's \<^verbatim>\<open>int\<close> is a 64-bit two's complement integer on the 64-bit
  targets; \<^verbatim>\<open>Votes++\<close> wraps.
\<close>

record Option =
  ID :: string
  Text :: string
  Votes :: "64 word"

text \<open>
  A slice \<^verbatim>\<open>[]Option\<close> is a window into memory: the address of its first element
  and its length. (The capacity is left out: nothing modelled here appends to or
  re-slices an option slice.) The nil slice has length 0.
\<close>

record slice =
  Data :: nat
  Len :: nat

record Poll =
  ID :: string
  Question :: string
  Options :: slice
  CreatedAt :: Time
  ExpiresAt :: Time

text \<open>
  The memory the program works on. \<^verbatim>\<open>*Poll\<close> pointers are addresses into \<open>pollAt\<close>,
  option slices are windows into \<open>cellAt\<close>; both areas are allocated upwards, the
  addresses below \<open>nextPoll\<close> and \<open>nextCell\<close> being in use.
\<close>

record heap =
  pollAt :: "nat \<Rightarrow> Poll"
  nextPoll :: nat
  cellAt :: "nat \<Rightarrow> Option"
  nextCell :: nat

definition elems :: "heap \<Rightarrow> slice \<Rightarrow> Option list" where
  "elems h s = map (cellAt h) [Data s ..< Data s + Len s]"

fun TotalVotes_loop :: "Option list \<Rightarrow> 64 word \<Rightarrow> 64 word" where
  "TotalVotes_loop [] tot = tot"
| "TotalVotes_loop (opt # rest) tot = TotalVotes_loop rest (tot + Votes opt)"

definition TotalVotes :: "heap \<Rightarrow> nat \<Rightarrow> 64 word" where
  "TotalVotes h p = TotalVotes_loop (elems h (Options (pollAt h p))) 0"

text \<open>
  \<^verbatim>\<open>float64\<close>: the IEEE 754 binary64 numbers are the reals \<open>m * 2^e\<close> with
  \<open>\<bar>m\<bar> < 2^53\<close>, and every conversion and operation rounds the exact result to the
  nearest of them, ties to the even significand. \<open>float64 x\<close> is that rounding of the
  real \<open>x\<close>. The range of the exponent is not modelled: the numbers that occur in
  \<^verbatim>\<open>VotePercentage\<close> (64-bit integers, their quotients, and these times 100) are zero or of
  a magnitude between \<open>2^-64\<close> and \<open>2^71\<close>, far from overflow and underflow.
\<close>

definition round_even :: "real \<Rightarrow> int" where
  "round_even y =
     (let f = \<lfloor>y\<rfloor>; d = y - of_int f
      in if d < 1 / 2 then f else if 1 / 2 < d then f + 1 else if even f then f else f + 1)"

definition float64 :: "real \<Rightarrow> real" where
  "float64 x =
     (if x = 0 then 0
      else let ulp = 2 powr (of_int \<lfloor>log 2 \<bar>x\<bar>\<rfloor> - 52)
           in of_int (round_even (x / ulp)) * ulp)"

text \<open>The unit roundoff of \<^verbatim>\<open>float64\<close>: half the gap between 1 and the next number.\<close>

definition unit_roundoff :: real where
  "unit_roundoff = 1 / 2 ^ 53"

text \<open>\<open>a\<close> approximates \<open>x\<close> with a relative error of at most \<open>\<alpha>\<close>.\<close>

definition rel_err :: "real \<Rightarrow> real \<Rightarrow> real \<Rightarrow> bool" where
  "rel_err x a \<alpha> \<longleftrightarrow> \<bar>a - x\<bar> \<le> \<alpha> * \<bar>x\<bar>"

definition float64_of_int :: "64 word \<Rightarrow> real" where
  "float64_of_int v = float64 (of_int (sint v))"

definition float64_div :: "real \<Rightarrow> real \<Rightarrow> real" where
  "float64_div a b = float64 (a / b)"

definition float64_mul :: "real \<Rightarrow> real \<Rightarrow> real" where
  "float64_mul a b = float64 (a * b)"

text \<open>
  \<^verbatim>\<open>VotePercentage\<close>: the division is reached with \<open>tot \<noteq> 0\<close> only, so that its
  divisor \<^verbatim>\<open>float64(total)\<close> is not zero.
\<close>

fun VotePercentage_loop :: "Option list \<Rightarrow> string \<Rightarrow> 64 word \<Rightarrow> real" where
  "VotePercentage_loop [] optionID tot = 0"
| "VotePercentage_loop (opt # rest) optionID tot =
     (if Option.ID opt = optionID
      then float64_mul (float64_div (float64_of_int (Votes opt)) (float64_of_int tot)) 100
      else VotePercentage_loop rest optionID tot)"

definition VotePercentage :: "heap \<Rightarrow> nat \<Rightarrow> string \<Rightarrow> real" where
  "VotePercentage h p optionID =
     (let tot = TotalVotes h p
      in if tot = 0 then 0
         else VotePercentage_loop (elems h (Options (pollAt h p))) optionID tot)"

definition IsExpired :: "Time \<Rightarrow> heap \<Rightarrow> nat \<Rightarrow> bool" where
  "IsExpired now h p =
     (if IsZero (ExpiresAt (pollAt h p)) then False
      else After now (ExpiresAt (pollAt h p)))"

section \<open>Storage (main.go, lines 77-178)\<close>

text \<open>
  \<^verbatim>\<open>Store.polls\<close> is a \<^verbatim>\<open>map[string]*Poll\<close>: it holds pointers. The mutex is not
  modelled: every operation below is one whole critical section.
\<close>

record Store =
  polls :: "string \<rightharpoonup> nat"

definition NewStore :: Store where
  "NewStore = \<lparr>polls = Map.empty\<rparr>"

datatype error = PollNotFound | PollExpired | OptionNotFound

datatype panic =
  NilDereference | IndexOutOfRange | CloseOfNilChannel | CloseOfClosedChannel
  | SendOnClosedChannel

text \<open>
  \<^verbatim>\<open>generateID\<close> hex-encodes four bytes read from \<^verbatim>\<open>crypto/rand\<close>; the bytes read
  are an argument of the model.
\<close>

definition hexdigit :: "8 word \<Rightarrow> char" where
  "hexdigit n = ''0123456789abcdef'' ! unat n"

definition hex_EncodeToString :: "8 word list \<Rightarrow> string" where
  "hex_EncodeToString bs =
     concat (map (\<lambda>b. [hexdigit (drop_bit 4 b), hexdigit (take_bit 4 b)]) bs)"

definition generateID :: "8 word \<times> 8 word \<times> 8 word \<times> 8 word \<Rightarrow> string" where
  "generateID rnd = (case rnd of (b0, b1, b2, b3) \<Rightarrow> hex_EncodeToString [b0, b1, b2, b3])"

text \<open>
  \<^verbatim>\<open>make([]Option, n)\<close> allocates \<open>n\<close> zeroed cells; \<^verbatim>\<open>copy(dst, src)\<close> moves
  \<open>min (len dst) (len src)\<close> elements, reading the source as it was before the call.
\<close>

definition zero_Option :: Option where
  "zero_Option = \<lparr>Option.ID = [], Text = [], Votes = 0\<rparr>"

definition make_slice :: "heap \<Rightarrow> nat \<Rightarrow> slice \<times> heap" where
  "make_slice h n =
     (\<lparr>Data = nextCell h, Len = n\<rparr>,
      h\<lparr>cellAt := (\<lambda>a. if nextCell h \<le> a \<and> a < nextCell h + n then zero_Option
                          else cellAt h a),
        nextCell := nextCell h + n\<rparr>)"

definition copy_slice :: "heap \<Rightarrow> slice \<Rightarrow> slice \<Rightarrow> heap" where
  "copy_slice h dst src =
     (let n = min (Len dst) (Len src)
      in h\<lparr>cellAt := (\<lambda>a. if Data dst \<le> a \<and> a < Data dst + n
                            then cellAt h (Data src + (a - Data dst))
                            else cellAt h a)\<rparr>)"

definition copyPoll :: "heap \<Rightarrow> nat \<Rightarrow> nat \<times> heap" where
  "copyPoll h p =
     (let (options, h1) = make_slice h (Len (Options (pollAt h p)));
          h2 = copy_slice h1 options (Options (pollAt h1 p));
          r = nextPoll h2
      in (r, h2\<lparr>pollAt := (pollAt h2)(r :=
                   \<lparr>Poll.ID = Poll.ID (pollAt h2 p),
                    Question = Question (pollAt h2 p),
                    Options = options,
                    CreatedAt = CreatedAt (pollAt h2 p),
                    ExpiresAt = ExpiresAt (pollAt h2 p)\<rparr>),
                 nextPoll := Suc r\<rparr>))"

text \<open>
  \<^verbatim>\<open>Create\<close> stores the caller's pointer itself, after writing the identifier (when
  empty) and the creation time through it. A nil pointer panics at \<^verbatim>\<open>poll.ID\<close>.
\<close>

definition Create ::
  "Time \<Rightarrow> 8 word \<times> 8 word \<times> 8 word \<times> 8 word \<Rightarrow> Store \<Rightarrow> heap \<Rightarrow> nat option
     \<Rightarrow> panic + Store \<times> heap" where
  "Create now rnd s h poll =
     (case poll of
        None \<Rightarrow> Inl NilDereference
      | Some p \<Rightarrow>
          let h1 = (if Poll.ID (pollAt h p) = []
                    then h\<lparr>pollAt := (pollAt h)(p := (pollAt h p)\<lparr>Poll.ID := generateID rnd\<rparr>)\<rparr>
                    else h);
              h2 = h1\<lparr>pollAt := (pollAt h1)(p := (pollAt h1 p)\<lparr>CreatedAt := now\<rparr>)\<rparr>
          in Inr (s\<lparr>polls := (polls s)(Poll.ID (pollAt h2 p) \<mapsto> p)\<rparr>, h2))"

definition Get :: "Store \<Rightarrow> heap \<Rightarrow> string \<Rightarrow> (nat option \<times> bool) \<times> heap" where
  "Get s h pid =
     (case polls s pid of
        None \<Rightarrow> ((None, False), h)
      | Some poll \<Rightarrow> let (r, h') = copyPoll h poll in ((Some r, True), h'))"

text \<open>
  The loop of \<^verbatim>\<open>Vote\<close> over \<^verbatim>\<open>range poll.Options\<close>: the address of the first cell,
  among the \<open>n\<close> from \<open>a\<close> on, whose identifier is \<open>optionID\<close>.
\<close>

fun Vote_loop :: "heap \<Rightarrow> string \<Rightarrow> nat \<Rightarrow> nat \<Rightarrow> nat option" where
  "Vote_loop h optionID a 0 = None"
| "Vote_loop h optionID a (Suc n) =
     (if Option.ID (cellAt h a) = optionID then Some a
      else Vote_loop h optionID (Suc a) n)"

definition Vote ::
  "Time \<Rightarrow> Store \<Rightarrow> heap \<Rightarrow> string \<Rightarrow> string \<Rightarrow> (error + nat) \<times> Store \<times> heap" where
  "Vote now s h pollID optionID =
     (case polls s pollID of
        None \<Rightarrow> (Inl PollNotFound, s, h)
      | Some poll \<Rightarrow>
          if IsExpired now h poll then (Inl PollExpired, s, h)
          else
            (case Vote_loop h optionID (Data (Options (pollAt h poll)))
                    (Len (Options (pollAt h poll))) of
               None \<Rightarrow> (Inl OptionNotFound, s, h)
             | Some a \<Rightarrow>
                 let h1 = h\<lparr>cellAt := (cellAt h)(a := (cellAt h a)\<lparr>Votes := Votes (cellAt h a) + 1\<rparr>)\<rparr>;
                     (r, h2) = copyPoll h1 poll
                 in (Inr r, s, h2)))"

text \<open>
  \<^verbatim>\<open>List\<close> ranges over the map in an order the runtime chooses: \<open>ks\<close> is the order in
  which the keys are visited. \<^verbatim>\<open>sort.Slice\<close> belongs to the standard library and is an
  argument, applied to the comparison \<^verbatim>\<open>polls[i].CreatedAt.After(polls[j].CreatedAt)\<close>.
\<close>

fun List_range :: "Store \<Rightarrow> heap \<Rightarrow> string list \<Rightarrow> nat list \<Rightarrow> nat list \<times> heap" where
  "List_range s h [] acc = (acc, h)"
| "List_range s h (k # ks) acc =
     (case polls s k of
        None \<Rightarrow> List_range s h ks acc
      | Some p \<Rightarrow> let (r, h') = copyPoll h p in List_range s h' ks (acc @ [r]))"

definition List ::
  "((nat \<Rightarrow> nat \<Rightarrow> bool) \<Rightarrow> nat list \<Rightarrow> nat list) \<Rightarrow> string list \<Rightarrow> Store \<Rightarrow> heap
     \<Rightarrow> nat list \<times> heap" where
  "List sort_Slice ks s h =
     (let (ps, h') = List_range s h ks []
      in (sort_Slice (\<lambda>a b. After (CreatedAt (pollAt h' a)) (CreatedAt (pollAt h' b))) ps, h'))"

definition Delete :: "Store \<Rightarrow> string \<Rightarrow> bool \<times> Store" where
  "Delete s pid =
     (case polls s pid of
        Some p \<Rightarrow> (True, s\<lparr>polls := (polls s)(pid := None)\<rparr>)
      | None \<Rightarrow> (False, s))"

section \<open>Reading the memory\<close>

text \<open>
  What a caller holding the pointer \<open>p\<close> sees: the fields of the record and the
  elements of its option slice.
\<close>

definition options_of :: "heap \<Rightarrow> nat \<Rightarrow> Option list" where
  "options_of h p = elems h (Options (pollAt h p))"

definition deref :: "heap \<Rightarrow> nat \<Rightarrow> string \<times> string \<times> Option list \<times> Time \<times> Time" where
  "deref h p =
     (Poll.ID (pollAt h p), Question (pollAt h p), options_of h p,
      CreatedAt (pollAt h p), ExpiresAt (pollAt h p))"

text \<open>
  Memory safety as Go guarantees it: the slice of every allocated record lies in
  allocated cells, and the store holds allocated pointers only.
\<close>

definition wf_heap :: "heap \<Rightarrow> bool" where
  "wf_heap h \<longleftrightarrow>
     (\<forall>r < nextPoll h. Data (Options (pollAt h r)) + Len (Options (pollAt h r)) \<le> nextCell h)"

definition wf_store :: "Store \<Rightarrow> heap \<Rightarrow> bool" where
  "wf_store s h \<longleftrightarrow> (\<forall>k r. polls s k = Some r \<longrightarrow> r < nextPoll h)"

section \<open>Callers writing through a pointer they hold\<close>

text \<open>
  What a caller can do to a record it holds a pointer \<open>r\<close> to: assign a scalar field,
  assign an element of the option slice (\<^verbatim>\<open>r.Options[i] = v\<close>, which panics out of
  range), or assign a newly built slice (\<^verbatim>\<open>r.Options = []Option{...}\<close>).
\<close>

datatype mutation =
  SetID string
  | SetQuestion string
  | SetCreatedAt Time
  | SetExpiresAt Time
  | SetOption nat Option
  | SetOptions "Option list"

fun mutate :: "heap \<Rightarrow> nat \<Rightarrow> mutation \<Rightarrow> panic + heap" where
  "mutate h r (SetID v) = Inr (h\<lparr>pollAt := (pollAt h)(r := (pollAt h r)\<lparr>Poll.ID := v\<rparr>)\<rparr>)"
| "mutate h r (SetQuestion v) =
     Inr (h\<lparr>pollAt := (pollAt h)(r := (pollAt h r)\<lparr>Question := v\<rparr>)\<rparr>)"
| "mutate h r (SetCreatedAt v) =
     Inr (h\<lparr>pollAt := (pollAt h)(r := (pollAt h r)\<lparr>CreatedAt := v\<rparr>)\<rparr>)"
| "mutate h r (SetExpiresAt v) =
     Inr (h\<lparr>pollAt := (pollAt h)(r := (pollAt h r)\<lparr>ExpiresAt := v\<rparr>)\<rparr>)"
| "mutate h r (SetOption i v) =
     (if i < Len (Options (pollAt h r))
      then Inr (h\<lparr>cellAt := (cellAt h)(Data (Options (pollAt h r)) + i := v)\<rparr>)
      else Inl IndexOutOfRange)"
| "mutate h r (SetOptions vs) =
     Inr (h\<lparr>pollAt := (pollAt h)(r := (pollAt h r)
              \<lparr>Options := \<lparr>Data = nextCell h, Len = length vs\<rparr>\<rparr>),
            cellAt := (\<lambda>a. if nextCell h \<le> a \<and> a < nextCell h + length vs
                            then vs ! (a - nextCell h) else cellAt h a),
            nextCell := nextCell h + length vs\<rparr>)"

text \<open>A run of such writes; a panic ends it, with the memory as it is by then.\<close>

fun mutate_all :: "heap \<Rightarrow> nat \<Rightarrow> mutation list \<Rightarrow> heap" where
  "mutate_all h r [] = h"
| "mutate_all h r (m # ms) =
     (case mutate h r m of Inl pn \<Rightarrow> h | Inr h' \<Rightarrow> mutate_all h' r ms)"

definition cells_of :: "heap \<Rightarrow> nat \<Rightarrow> nat set" where
  "cells_of h p =
     {Data (Options (pollAt h p)) ..< Data (Options (pollAt h p)) + Len (Options (pollAt h p))}"

text \<open>
  \<open>r\<close> shares no cell with another allocated record, and \<open>independent h h' r\<close>: \<open>r\<close>
  was allocated between \<open>h\<close> and \<open>h'\<close>, and no run of writes through \<open>r\<close> changes what
  any other pointer reads.
\<close>

definition isolated :: "heap \<Rightarrow> nat \<Rightarrow> bool" where
  "isolated h r \<longleftrightarrow> (\<forall>q<nextPoll h. q \<noteq> r \<longrightarrow> cells_of h r \<inter> cells_of h q = {})"

definition independent :: "heap \<Rightarrow> heap \<Rightarrow> nat \<Rightarrow> bool" where
  "independent h h' r \<longleftrightarrow>
     nextPoll h \<le> r \<and> r < nextPoll h' \<and>
     (\<forall>ms q. q < nextPoll h' \<and> q \<noteq> r \<longrightarrow> deref (mutate_all h' r ms) q = deref h' q)"

text \<open>
  The contract of \<^verbatim>\<open>sort.Slice\<close>: the result is a permutation of the slice, and it is
  ordered by \<open>lt\<close> when \<open>lt\<close> is a strict weak order. Nothing is said on the order of
  elements that \<open>lt\<close> does not tell apart (the sort is not stable).
\<close>

definition strict_weak_order :: "('a \<Rightarrow> 'a \<Rightarrow> bool) \<Rightarrow> bool" where
  "strict_weak_order lt \<longleftrightarrow>
     (\<forall>a. \<not> lt a a) \<and> (\<forall>a b c. lt a b \<and> lt b c \<longrightarrow> lt a c) \<and>
     (\<forall>a b c. \<not> lt a b \<and> \<not> lt b c \<longrightarrow> \<not> lt a c)"

definition sort_Slice_spec :: "(('a \<Rightarrow> 'a \<Rightarrow> bool) \<Rightarrow> 'a list \<Rightarrow> 'a list) \<Rightarrow> bool" where
  "sort_Slice_spec srt \<longleftrightarrow>
     (\<forall>lt xs. mset (srt lt xs) = mset xs) \<and>
     (\<forall>lt xs. strict_weak_order lt \<longrightarrow> sorted_wrt (\<lambda>a b. \<not> lt b a) (srt lt xs))"

text \<open>An instance of the contract: insertion sort.\<close>

fun insert_by :: "('a \<Rightarrow> 'a \<Rightarrow> bool) \<Rightarrow> 'a \<Rightarrow> 'a list \<Rightarrow> 'a list" where
  "insert_by lt x [] = [x]"
| "insert_by lt x (y # ys) =
     (if lt y x then y # insert_by lt x ys else x # y # ys)"

fun insertion_sort :: "('a \<Rightarrow> 'a \<Rightarrow> bool) \<Rightarrow> 'a list \<Rightarrow> 'a list" where
  "insertion_sort lt [] = []"
| "insertion_sort lt (x # xs) = insert_by lt x (insertion_sort lt xs)"

section \<open>Runs of repository operations\<close>

text \<open>The key under which \<^verbatim>\<open>Create\<close> stores the record \<open>p\<close>.\<close>

definition Create_key :: "8 word \<times> 8 word \<times> 8 word \<times> 8 word \<Rightarrow> heap \<Rightarrow> nat \<Rightarrow> string" where
  "Create_key rnd h p = (if Poll.ID (pollAt h p) = [] then generateID rnd else Poll.ID (pollAt h p))"

text \<open>
  A caller building a record, as the handlers and \<^verbatim>\<open>main\<close> do before \<^verbatim>\<open>Create\<close>:
  \<^verbatim>\<open>&Poll{ID: .., Question: .., Options: []Option{..}, ExpiresAt: ..}\<close>.
\<close>

definition new_Poll :: "heap \<Rightarrow> string \<Rightarrow> string \<Rightarrow> Option list \<Rightarrow> Time \<Rightarrow> nat \<times> heap" where
  "new_Poll h pid q opts expires =
     (nextPoll h,
      h\<lparr>pollAt := (pollAt h)(nextPoll h :=
             \<lparr>Poll.ID = pid, Question = q,
              Options = \<lparr>Data = nextCell h, Len = length opts\<rparr>,
              CreatedAt = 0, ExpiresAt = expires\<rparr>),
        nextPoll := Suc (nextPoll h),
        cellAt := (\<lambda>a. if nextCell h \<le> a \<and> a < nextCell h + length opts
                        then opts ! (a - nextCell h) else cellAt h a),
        nextCell := nextCell h + length opts\<rparr>)"

text \<open>
  The calls of a run, with the values the environment supplies to each (the clock, the
  random bytes, the iteration order and the sort). A panic of \<^verbatim>\<open>Create\<close> leaves the
  state as it is.
\<close>

datatype op =
  OpNew string string "Option list" Time
  | OpCreate Time "8 word \<times> 8 word \<times> 8 word \<times> 8 word" "nat option"
  | OpGet string
  | OpVote Time string string
  | OpList "(nat \<Rightarrow> nat \<Rightarrow> bool) \<Rightarrow> nat list \<Rightarrow> nat list" "string list"
  | OpDelete string

fun step :: "op \<Rightarrow> Store \<times> heap \<Rightarrow> Store \<times> heap" where
  "step (OpNew pid q opts expires) (s, h) = (s, snd (new_Poll h pid q opts expires))"
| "step (OpCreate now rnd poll) (s, h) =
     (case Create now rnd s h poll of Inl pn \<Rightarrow> (s, h) | Inr st \<Rightarrow> st)"
| "step (OpGet pid) (s, h) = (s, snd (Get s h pid))"
| "step (OpVote now pollID optionID) (s, h) = snd (Vote now s h pollID optionID)"
| "step (OpList srt ks) (s, h) = (s, snd (List srt ks s h))"
| "step (OpDelete pid) (s, h) = (snd (Delete s pid), h)"

fun run :: "op list \<Rightarrow> Store \<times> heap \<Rightarrow> Store \<times> heap" where
  "run [] st = st"
| "run (c # cs) st = run cs (step c st)"

text \<open>
  \<open>valid_run\<close>: the pointers passed to \<^verbatim>\<open>Create\<close> are nil or allocated.
  \<open>keeps X\<close>: no call of the run deletes \<open>X\<close> or creates a poll under the key \<open>X\<close>.
\<close>

fun valid_op :: "op \<Rightarrow> Store \<times> heap \<Rightarrow> bool" where
  "valid_op (OpCreate now rnd (Some p)) (s, h) = (p < nextPoll h)"
| "valid_op c st = True"

fun valid_run :: "op list \<Rightarrow> Store \<times> heap \<Rightarrow> bool" where
  "valid_run [] st = True"
| "valid_run (c # cs) st = (valid_op c st \<and> valid_run cs (step c st))"

fun touches :: "string \<Rightarrow> op \<Rightarrow> Store \<times> heap \<Rightarrow> bool" where
  "touches X (OpCreate now rnd (Some p)) (s, h) = (Create_key rnd h p = X)"
| "touches X (OpDelete pid) st = (pid = X)"
| "touches X c st = False"

fun keeps :: "string \<Rightarrow> op list \<Rightarrow> Store \<times> heap \<Rightarrow> bool" where
  "keeps X [] st = True"
| "keeps X (c # cs) st = (\<not> touches X c st \<and> keeps X cs (step c st))"

text \<open>
  The invariant of the store: memory safety, every poll is stored under its own
  identifier, and no key is empty.
\<close>

definition store_inv :: "Store \<times> heap \<Rightarrow> bool" where
  "store_inv st \<longleftrightarrow>
     wf_heap (snd st) \<and> wf_store (fst st) (snd st) \<and>
     (\<forall>k r. polls (fst st) k = Some r \<longrightarrow> Poll.ID (pollAt (snd st) r) = k) \<and>
     polls (fst st) [] = None"

text \<open>
  How the options of a stored poll may differ after one call (\<open>bumped\<close>: at most one
  counter, incremented) and after \<open>n\<close> calls (\<open>grown n\<close>: the same identifiers and texts
  in the same order, each counter incremented at most \<open>n\<close> times).
\<close>

definition bumped :: "Option list \<Rightarrow> Option list \<Rightarrow> bool" where
  "bumped old new \<longleftrightarrow>
     new = old \<or> (\<exists>i<length old. new = old[i := (old ! i)\<lparr>Votes := Votes (old ! i) + 1\<rparr>])"

definition grown :: "nat \<Rightarrow> Option list \<Rightarrow> Option list \<Rightarrow> bool" where
  "grown n old new \<longleftrightarrow>
     length new = length old \<and>
     (\<forall>i<length old. Option.ID (new ! i) = Option.ID (old ! i) \<and> Text (new ! i) = Text (old ! i) \<and>
        (\<exists>k\<le>n. Votes (new ! i) = Votes (old ! i) + of_nat k))"

section \<open>Concurrent calls of \<^verbatim>\<open>Vote\<close>\<close>

text \<open>
  \<^verbatim>\<open>Vote\<close> is \<^verbatim>\<open>s.mu.Lock()\<close>, the body, and the deferred \<^verbatim>\<open>s.mu.Unlock()\<close>. For calls
  that run concurrently the body is split where \<^verbatim>\<open>Votes++\<close> splits: \<open>Vote_read\<close> is
  all that the body reads (the map, the expiry time, the identifiers, the counter), and
  \<open>Vote_write\<close> all that it writes (the counter, from the value read, and the copy).
\<close>

definition Vote_read ::
  "Time \<Rightarrow> Store \<Rightarrow> heap \<Rightarrow> string \<Rightarrow> string \<Rightarrow> error + nat \<times> nat \<times> 64 word" where
  "Vote_read now s h pollID optionID =
     (case polls s pollID of
        None \<Rightarrow> Inl PollNotFound
      | Some poll \<Rightarrow>
          if IsExpired now h poll then Inl PollExpired
          else
            (case Vote_loop h optionID (Data (Options (pollAt h poll)))
                    (Len (Options (pollAt h poll))) of
               None \<Rightarrow> Inl OptionNotFound
             | Some a \<Rightarrow> Inr (poll, a, Votes (cellAt h a))))"

definition Vote_write :: "heap \<Rightarrow> nat \<Rightarrow> nat \<Rightarrow> 64 word \<Rightarrow> nat \<times> heap" where
  "Vote_write h poll a v =
     copyPoll (h\<lparr>cellAt := (cellAt h)(a := (cellAt h a)\<lparr>Votes := v + 1\<rparr>)\<rparr>) poll"

text \<open>
  The calls are numbered; \<open>mu\<close> is the call that holds the lock, if any. A call is
  \<open>Idle\<close> before \<^verbatim>\<open>Lock\<close> returns, then \<open>Holding\<close> the lock, then has \<open>Loaded\<close> (the
  poll, the address of the counter and its value), then has \<open>Stored\<close>, and has
  \<open>Returned\<close> once the lock is released.
\<close>

datatype call =
  Idle | Holding | Loaded nat nat "64 word" | Stored "error + nat" | Returned "error + nat"

record config =
  mu :: "nat option"
  store :: Store
  mem :: heap
  calls :: "nat \<Rightarrow> call"

text \<open>
  The next step of call \<open>t\<close>, which reads the clock as \<open>now t\<close>. \<^verbatim>\<open>Lock\<close> goes through
  only when nobody holds the lock; a call that waits for it, or has returned, does
  nothing.
\<close>

definition call_step :: "(nat \<Rightarrow> Time) \<Rightarrow> string \<Rightarrow> string \<Rightarrow> nat \<Rightarrow> config \<Rightarrow> config" where
  "call_step now pollID optionID t c =
     (case calls c t of
        Idle \<Rightarrow> if mu c = None then c\<lparr>mu := Some t, calls := (calls c)(t := Holding)\<rparr> else c
      | Holding \<Rightarrow>
          (case Vote_read (now t) (store c) (mem c) pollID optionID of
             Inl e \<Rightarrow> c\<lparr>calls := (calls c)(t := Stored (Inl e))\<rparr>
           | Inr (poll, a, v) \<Rightarrow> c\<lparr>calls := (calls c)(t := Loaded poll a v)\<rparr>)
      | Loaded poll a v \<Rightarrow>
          (let (r, h') = Vote_write (mem c) poll a v
           in c\<lparr>mem := h', calls := (calls c)(t := Stored (Inr r))\<rparr>)
      | Stored res \<Rightarrow> c\<lparr>mu := None, calls := (calls c)(t := Returned res)\<rparr>
      | Returned res \<Rightarrow> c)"

text \<open>A schedule is the list of the calls in the order in which they take their steps.\<close>

fun exec :: "(nat \<Rightarrow> Time) \<Rightarrow> string \<Rightarrow> string \<Rightarrow> nat list \<Rightarrow> config \<Rightarrow> config" where
  "exec now pollID optionID [] c = c"
| "exec now pollID optionID (t # sched) c =
     exec now pollID optionID sched (call_step now pollID optionID t c)"

definition init_config :: "Store \<Rightarrow> heap \<Rightarrow> config" where
  "init_config s h = \<lparr>mu = None, store = s, mem = h, calls = (\<lambda>_. Idle)\<rparr>"

fun finished :: "call \<Rightarrow> bool" where
  "finished (Stored res) = True"
| "finished (Returned res) = True"
| "finished x = False"

fun quiet :: "call \<Rightarrow> bool" where
  "quiet Idle = True"
| "quiet (Returned res) = True"
| "quiet x = False"

text \<open>How many of the calls \<open>0, \<dots>, N - 1\<close> have stored.\<close>

definition stored_count :: "nat \<Rightarrow> (nat \<Rightarrow> call) \<Rightarrow> nat" where
  "stored_count N cs = card {t. t < N \<and> finished (cs t)}"

text \<open>
  The invariant of \<open>N\<close> concurrent votes for the option at index \<open>i\<close> of the poll \<open>p\<close>,
  from the memory \<open>h0\<close>: the counter has advanced by the number of calls that have
  stored, only the holder of the lock is inside the body, and what it has loaded is
  what the memory holds.
\<close>

definition vote_inv ::
  "nat \<Rightarrow> Store \<Rightarrow> heap \<Rightarrow> nat \<Rightarrow> nat \<Rightarrow> config \<Rightarrow> bool" where
  "vote_inv N s h0 p i c \<longleftrightarrow>
     store c = s \<and> wf_heap (mem c) \<and> p < nextPoll (mem c) \<and> pollAt (mem c) p = pollAt h0 p \<and>
     options_of (mem c) p =
       (options_of h0 p)[i := (options_of h0 p ! i)
          \<lparr>Votes := Votes (options_of h0 p ! i) + of_nat (stored_count N (calls c))\<rparr>] \<and>
     (\<forall>t. N \<le> t \<longrightarrow> calls c t = Idle) \<and>
     (case mu c of
        None \<Rightarrow> \<forall>t. quiet (calls c t)
      | Some t \<Rightarrow> \<not> quiet (calls c t) \<and> (\<forall>t'. t' \<noteq> t \<longrightarrow> quiet (calls c t'))) \<and>
     (\<forall>t poll a v. calls c t = Loaded poll a v \<longrightarrow>
        poll = p \<and> a = Data (Options (pollAt h0 p)) + i \<and> v = Votes (options_of (mem c) p ! i)) \<and>
     (\<forall>t res. calls c t = Stored res \<or> calls c t = Returned res \<longrightarrow> (\<exists>r. res = Inr r))"

section \<open>SSE broadcaster (main.go, lines 185-238)\<close>

text \<open>
  A \<^verbatim>\<open>chan string\<close> is a bounded queue with a closed flag; channel values are
  addresses into \<open>chanAt\<close>, and the nil channel is \<open>None\<close>. The inner
  \<^verbatim>\<open>map[chan string]bool\<close> of a key is its listener set.
\<close>

record chan =
  buf :: "string list"
  cap :: nat
  closed :: bool

record chans =
  chanAt :: "nat \<Rightarrow> chan"
  nextChan :: nat

record Broadcaster =
  subscribers :: "string \<rightharpoonup> (nat \<rightharpoonup> bool)"

definition NewBroadcaster :: Broadcaster where
  "NewBroadcaster = \<lparr>subscribers = Map.empty\<rparr>"

definition Subscribe :: "Broadcaster \<Rightarrow> chans \<Rightarrow> string \<Rightarrow> nat \<times> Broadcaster \<times> chans" where
  "Subscribe b cs pollID =
     (let ch = nextChan cs;
          cs' = cs\<lparr>chanAt := (chanAt cs)(ch := \<lparr>buf = [], cap = 10, closed = False\<rparr>),
                   nextChan := Suc ch\<rparr>;
          subs = (case subscribers b pollID of None \<Rightarrow> Map.empty | Some m \<Rightarrow> m)
      in (ch, b\<lparr>subscribers := (subscribers b)(pollID \<mapsto> subs(ch \<mapsto> True))\<rparr>, cs'))"

text \<open>\<^verbatim>\<open>close(ch)\<close> panics on the nil channel and on a channel that is closed already.\<close>

definition close_chan :: "chans \<Rightarrow> nat option \<Rightarrow> panic option \<times> chans" where
  "close_chan cs ch =
     (case ch of
        None \<Rightarrow> (Some CloseOfNilChannel, cs)
      | Some c \<Rightarrow>
          if closed (chanAt cs c) then (Some CloseOfClosedChannel, cs)
          else (None, cs\<lparr>chanAt := (chanAt cs)(c := (chanAt cs c)\<lparr>closed := True\<rparr>)\<rparr>))"

text \<open>
  \<^verbatim>\<open>Unsubscribe\<close>: under an existing key, \<^verbatim>\<open>delete(subs, ch)\<close> and then
  \<^verbatim>\<open>close(ch)\<close>; the deletion stays when the close panics.
\<close>

definition Unsubscribe ::
  "Broadcaster \<Rightarrow> chans \<Rightarrow> string \<Rightarrow> nat option \<Rightarrow> panic option \<times> Broadcaster \<times> chans" where
  "Unsubscribe b cs pollID ch =
     (case subscribers b pollID of
        None \<Rightarrow> (None, b, cs)
      | Some subs \<Rightarrow>
          let subs' = (case ch of None \<Rightarrow> subs | Some c \<Rightarrow> subs(c := None));
              b' = b\<lparr>subscribers := (subscribers b)(pollID \<mapsto> subs')\<rparr>;
              (pn, cs') = close_chan cs ch
          in (pn, b', cs'))"

text \<open>
  \<^verbatim>\<open>select { case ch <- data: default: }\<close>: a send that never blocks. On a closed
  channel it panics; with room in the buffer it enqueues; on a full buffer it does
  nothing.
\<close>

definition send_nb :: "chans \<Rightarrow> nat \<Rightarrow> string \<Rightarrow> panic option \<times> chans" where
  "send_nb cs c data =
     (let ch = chanAt cs c
      in if closed ch then (Some SendOnClosedChannel, cs)
         else if length (buf ch) < cap ch
              then (None, cs\<lparr>chanAt := (chanAt cs)(c := ch\<lparr>buf := buf ch @ [data]\<rparr>)\<rparr>)
              else (None, cs))"

fun Broadcast_range :: "chans \<Rightarrow> nat list \<Rightarrow> string \<Rightarrow> panic option \<times> chans" where
  "Broadcast_range cs [] data = (None, cs)"
| "Broadcast_range cs (c # rest) data =
     (case send_nb cs c data of
        (Some pn, cs') \<Rightarrow> (Some pn, cs')
      | (None, cs') \<Rightarrow> Broadcast_range cs' rest data)"

text \<open>
  \<^verbatim>\<open>Broadcast\<close> ranges over the listener set in an order the runtime chooses: the
  listeners are visited in the order they have in \<open>ord\<close>.
\<close>

definition Broadcast ::
  "nat list \<Rightarrow> Broadcaster \<Rightarrow> chans \<Rightarrow> string \<Rightarrow> string \<Rightarrow> panic option \<times> chans" where
  "Broadcast ord b cs pollID data =
     (case subscribers b pollID of
        None \<Rightarrow> (None, cs)
      | Some subs \<Rightarrow> Broadcast_range cs (filter (\<lambda>c. subs c \<noteq> None) ord) data)"

text \<open>
  The receive \<^verbatim>\<open>msg := <-ch\<close> of the event loop, when it does not block: the oldest
  buffered message, or the zero value once the channel is closed and drained.
\<close>

definition recv :: "chans \<Rightarrow> nat \<Rightarrow> (string \<times> chans) option" where
  "recv cs c =
     (case buf (chanAt cs c) of
        m # ms \<Rightarrow> Some (m, cs\<lparr>chanAt := (chanAt cs)(c := (chanAt cs c)\<lparr>buf := ms\<rparr>)\<rparr>)
      | [] \<Rightarrow> if closed (chanAt cs c) then Some ([], cs) else None)"

text \<open>
  The listener set of a key, and the invariant of the registry that a caller keeps who
  unsubscribes each handle once, under its own key: a registered channel is allocated,
  open, of capacity 10 and registered under one key only.
\<close>

definition listeners :: "Broadcaster \<Rightarrow> string \<Rightarrow> nat set" where
  "listeners b key = (case subscribers b key of None \<Rightarrow> {} | Some subs \<Rightarrow> dom subs)"

definition notifier_inv :: "Broadcaster \<Rightarrow> chans \<Rightarrow> bool" where
  "notifier_inv b cs \<longleftrightarrow>
     (\<forall>key c. c \<in> listeners b key \<longrightarrow>
        c < nextChan cs \<and> \<not> closed (chanAt cs c) \<and> cap (chanAt cs c) = 10) \<and>
     (\<forall>k1 k2 c. c \<in> listeners b k1 \<and> c \<in> listeners b k2 \<longrightarrow> k1 = k2)"

section \<open>Example states\<close>

text \<open>
  A memory with two stored polls (the second one expired at time 30) and a third
  record, not stored, that a caller has built with the identifier of the first.
\<close>

definition ex_heap :: heap where
  "ex_heap =
     \<lparr>pollAt = (\<lambda>_. \<lparr>Poll.ID = [], Question = [], Options = \<lparr>Data = 0, Len = 0\<rparr>,
                       CreatedAt = 0, ExpiresAt = 0\<rparr>)
        (0 := \<lparr>Poll.ID = ''p1'', Question = ''Tabs or spaces?'',
               Options = \<lparr>Data = 0, Len = 2\<rparr>, CreatedAt = 10, ExpiresAt = 0\<rparr>,
         1 := \<lparr>Poll.ID = ''p2'', Question = ''Lunch?'',
               Options = \<lparr>Data = 2, Len = 1\<rparr>, CreatedAt = 20, ExpiresAt = 30\<rparr>,
         2 := \<lparr>Poll.ID = ''p1'', Question = ''Vim or Emacs?'',
               Options = \<lparr>Data = 3, Len = 2\<rparr>, CreatedAt = 0, ExpiresAt = 0\<rparr>),
      nextPoll = 3,
      cellAt = (\<lambda>_. zero_Option)
        (0 := \<lparr>Option.ID = ''a'', Text = ''Tabs'', Votes = 25\<rparr>,
         1 := \<lparr>Option.ID = ''b'', Text = ''Spaces'', Votes = 75\<rparr>,
         2 := \<lparr>Option.ID = ''x'', Text = ''Soup'', Votes = 1\<rparr>,
         3 := \<lparr>Option.ID = ''v'', Text = ''Vim'', Votes = 0\<rparr>,
         4 := \<lparr>Option.ID = ''e'', Text = ''Emacs'', Votes = 0\<rparr>),
      nextCell = 5\<rparr>"

definition empty_heap :: heap where
  "empty_heap =
     \<lparr>pollAt = (\<lambda>_. \<lparr>Poll.ID = [], Question = [], Options = \<lparr>Data = 0, Len = 0\<rparr>,
                       CreatedAt = 0, ExpiresAt = 0\<rparr>),
      nextPoll = 0, cellAt = (\<lambda>_. zero_Option), nextCell = 0\<rparr>"

text \<open>
  Two polls built and created on a new store, the clock reading 7 at both calls of
  \<^verbatim>\<open>Create\<close>.
\<close>

definition ex_tie :: "Store \<times> heap" where
  "ex_tie =
     run [OpNew [] ''First'' [] 0, OpCreate 7 (0, 0, 0, 0) (Some 0),
          OpNew [] ''Second'' [] 0, OpCreate 7 (0, 0, 0, 1) (Some 1)]
       (NewStore, empty_heap)"

text \<open>
  A registry with two listeners of the key \<open>k\<close>: channel 0 with a full buffer, channel
  1 with an empty one. And a registry after \<^verbatim>\<open>Subscribe\<close> and \<^verbatim>\<open>Unsubscribe\<close> of one
  listener.
\<close>

definition ex_chans :: chans where
  "ex_chans =
     \<lparr>chanAt = (\<lambda>_. \<lparr>buf = [], cap = 0, closed = False\<rparr>)
        (0 := \<lparr>buf = replicate 10 ''old'', cap = 10, closed = False\<rparr>,
         1 := \<lparr>buf = [], cap = 10, closed = False\<rparr>),
      nextChan = 2\<rparr>"

definition ex_broadcaster :: Broadcaster where
  "ex_broadcaster = \<lparr>subscribers = [''k'' \<mapsto> [0 \<mapsto> True, 1 \<mapsto> True]]\<rparr>"

definition no_chans :: chans where
  "no_chans = \<lparr>chanAt = (\<lambda>_. \<lparr>buf = [], cap = 0, closed = False\<rparr>), nextChan = 0\<rparr>"

definition ex_subscribed :: "nat \<times> Broadcaster \<times> chans" where
  "ex_subscribed = Subscribe NewBroadcaster no_chans ''k''"

definition ex_unsubscribed :: "panic option \<times> Broadcaster \<times> chans" where
  "ex_unsubscribed =
     Unsubscribe (fst (snd ex_subscribed)) (snd (snd ex_subscribed)) ''k''
       (Some (fst ex_subscribed))"

definition ex_store :: Store where
  "ex_store = \<lparr>polls = [''p1'' \<mapsto> 0, ''p2'' \<mapsto> 1]\<rparr>"

section \<open>Properties of the storage\<close>

lemma elems_length [simp]: "length (elems h s) = Len s"
  by (simp add: elems_def)

lemma elems_nth: "i < Len s \<Longrightarrow> elems h s ! i = cellAt h (Data s + i)"
  by (simp add: elems_def)

subsection \<open>\<^verbatim>\<open>copyPoll\<close> allocates and leaves the rest of the memory alone\<close>

lemma copyPoll_fst: "fst (copyPoll h p) = nextPoll h"
  by (simp add: copyPoll_def make_slice_def copy_slice_def Let_def)

lemma copyPoll_nextPoll: "nextPoll (snd (copyPoll h p)) = Suc (nextPoll h)"
  by (simp add: copyPoll_def make_slice_def copy_slice_def Let_def)

lemma copyPoll_nextCell:
  "nextCell (snd (copyPoll h p)) = nextCell h + Len (Options (pollAt h p))"
  by (simp add: copyPoll_def make_slice_def copy_slice_def Let_def)

lemma copyPoll_pollAt_old:
  "q \<noteq> nextPoll h \<Longrightarrow> pollAt (snd (copyPoll h p)) q = pollAt h q"
  by (simp add: copyPoll_def make_slice_def copy_slice_def Let_def)

lemma copyPoll_pollAt_new:
  "pollAt (snd (copyPoll h p)) (nextPoll h) =
     (pollAt h p)\<lparr>Options := \<lparr>Data = nextCell h, Len = Len (Options (pollAt h p))\<rparr>\<rparr>"
  by (simp add: copyPoll_def make_slice_def copy_slice_def Let_def)

lemma copyPoll_cellAt_old:
  "a < nextCell h \<Longrightarrow> cellAt (snd (copyPoll h p)) a = cellAt h a"
  by (simp add: copyPoll_def make_slice_def copy_slice_def Let_def)

lemma copyPoll_cellAt_new:
  "i < Len (Options (pollAt h p)) \<Longrightarrow>
   Data (Options (pollAt h p)) + Len (Options (pollAt h p)) \<le> nextCell h \<Longrightarrow>
   cellAt (snd (copyPoll h p)) (nextCell h + i) = cellAt h (Data (Options (pollAt h p)) + i)"
  by (simp add: copyPoll_def make_slice_def copy_slice_def Let_def)

lemma elems_cong:
  "(\<And>i. i < Len s \<Longrightarrow> cellAt h' (Data s' + i) = cellAt h (Data s + i)) \<Longrightarrow> Len s' = Len s \<Longrightarrow>
   elems h' s' = elems h s"
  by (rule nth_equalityI) (simp_all add: elems_nth)

lemma wf_heapD:
  "wf_heap h \<Longrightarrow> q < nextPoll h \<Longrightarrow>
   Data (Options (pollAt h q)) + Len (Options (pollAt h q)) \<le> nextCell h"
  by (simp add: wf_heap_def)

lemma copyPoll_options_new:
  assumes "wf_heap h" "p < nextPoll h"
  shows "options_of (snd (copyPoll h p)) (nextPoll h) = options_of h p"
  unfolding options_of_def
  apply (rule elems_cong)
  using wf_heapD [OF assms]
   apply (simp_all add: copyPoll_pollAt_new copyPoll_cellAt_new)
  done

lemma copyPoll_options_old:
  assumes "wf_heap h" "q < nextPoll h"
  shows "options_of (snd (copyPoll h p)) q = options_of h q"
  unfolding options_of_def
  apply (rule elems_cong)
  using wf_heapD [OF assms] assms(2)
   apply (simp_all add: copyPoll_pollAt_old copyPoll_cellAt_old)
  done

lemma copyPoll_deref_new:
  assumes "wf_heap h" "p < nextPoll h"
  shows "deref (snd (copyPoll h p)) (nextPoll h) = deref h p"
  using copyPoll_options_new [OF assms]
  by (simp add: deref_def copyPoll_pollAt_new)

lemma copyPoll_deref_old:
  assumes "wf_heap h" "q < nextPoll h"
  shows "deref (snd (copyPoll h p)) q = deref h q"
  using copyPoll_options_old [OF assms] assms(2)
  by (simp add: deref_def copyPoll_pollAt_old)

lemma copyPoll_wf:
  assumes "wf_heap h" "p < nextPoll h"
  shows "wf_heap (snd (copyPoll h p))"
  unfolding wf_heap_def
proof (intro allI impI)
  fix r assume "r < nextPoll (snd (copyPoll h p))"
  then have "r < nextPoll h \<or> r = nextPoll h"
    by (auto simp: copyPoll_nextPoll)
  then show "Data (Options (pollAt (snd (copyPoll h p)) r)) +
         Len (Options (pollAt (snd (copyPoll h p)) r)) \<le> nextCell (snd (copyPoll h p))"
  proof
    assume r: "r < nextPoll h"
    with wf_heapD [OF assms(1) r] show ?thesis
      by (simp add: copyPoll_pollAt_old copyPoll_nextCell)
  next
    assume "r = nextPoll h"
    then show ?thesis
      by (simp add: copyPoll_pollAt_new copyPoll_nextCell)
  qed
qed

subsection \<open>The loop of \<^verbatim>\<open>Vote\<close>\<close>

lemma Vote_loop_None:
  "Vote_loop h oid a n = None \<longleftrightarrow> (\<forall>i<n. Option.ID (cellAt h (a + i)) \<noteq> oid)"
proof (induction n arbitrary: a)
  case 0
  show ?case by simp
next
  case (Suc n)
  show ?case
  proof (cases "Option.ID (cellAt h a) = oid")
    case True
    then show ?thesis by auto
  next
    case False
    have "(\<forall>i<Suc n. Option.ID (cellAt h (a + i)) \<noteq> oid) \<longleftrightarrow>
          (\<forall>i<n. Option.ID (cellAt h (Suc a + i)) \<noteq> oid)"
      using False by (auto simp: less_Suc_eq_0_disj)
    with False Suc.IH [of "Suc a"] show ?thesis by simp
  qed
qed

lemma Vote_loop_Some:
  "Vote_loop h oid a n = Some b \<Longrightarrow>
   \<exists>i<n. b = a + i \<and> Option.ID (cellAt h (a + i)) = oid \<and>
          (\<forall>j<i. Option.ID (cellAt h (a + j)) \<noteq> oid)"
proof (induction n arbitrary: a)
  case 0
  then show ?case by simp
next
  case (Suc n)
  show ?case
  proof (cases "Option.ID (cellAt h a) = oid")
    case True
    with Suc.prems have "b = a" by simp
    with True show ?thesis by (intro exI [of _ 0]) simp
  next
    case False
    with Suc.prems have "Vote_loop h oid (Suc a) n = Some b" by simp
    from Suc.IH [OF this] obtain i where i: "i < n" "b = Suc a + i"
      "Option.ID (cellAt h (Suc a + i)) = oid"
      "\<forall>j<i. Option.ID (cellAt h (Suc a + j)) \<noteq> oid" by blast
    have "\<forall>j<Suc i. Option.ID (cellAt h (a + j)) \<noteq> oid"
      using False i(4) by (auto simp: less_Suc_eq_0_disj)
    with i show ?thesis by (intro exI [of _ "Suc i"]) simp
  qed
qed

lemma elems_alt: "elems h s = map (\<lambda>i. cellAt h (Data s + i)) [0..<Len s]"
  by (rule nth_equalityI) (simp_all add: elems_nth)

lemma options_of_ids:
  "oid \<in> set (map Option.ID (options_of h p)) \<longleftrightarrow>
   (\<exists>i<Len (Options (pollAt h p)). Option.ID (cellAt h (Data (Options (pollAt h p)) + i)) = oid)"
  by (auto simp: options_of_def elems_alt image_iff)

lemma wf_heap_cellAt [simp]: "wf_heap (h\<lparr>cellAt := f\<rparr>) = wf_heap h"
  by (simp add: wf_heap_def)

lemma options_of_cell_update:
  assumes "i < Len (Options (pollAt h p))"
  shows "options_of (h\<lparr>cellAt := (cellAt h)(Data (Options (pollAt h p)) + i := v)\<rparr>) p =
         (options_of h p)[i := v]"
  using assms by (intro nth_equalityI) (auto simp: options_of_def elems_nth nth_list_update)

lemma Vote_success:
  assumes wf: "wf_heap h" and p: "polls s pollID = Some p" "p < nextPoll h"
    and live: "\<not> IsExpired now h p"
    and loop: "Vote_loop h optionID (Data (Options (pollAt h p))) (Len (Options (pollAt h p))) =
               Some (Data (Options (pollAt h p)) + i)"
    and i: "i < Len (Options (pollAt h p))"
  shows "\<exists>h'. Vote now s h pollID optionID = (Inr (nextPoll h), s, h') \<and>
           options_of h' p =
             (options_of h p)[i := (options_of h p ! i)\<lparr>Votes := Votes (options_of h p ! i) + 1\<rparr>] \<and>
           pollAt h' p = pollAt h p \<and>
           deref h' (nextPoll h) = deref h' p \<and>
           Data (Options (pollAt h' (nextPoll h))) = nextCell h \<and>
           nextPoll h' = Suc (nextPoll h) \<and>
           (\<forall>q<nextPoll h. pollAt h' q = pollAt h q) \<and>
           (\<forall>a<nextCell h. a \<noteq> Data (Options (pollAt h p)) + i \<longrightarrow> cellAt h' a = cellAt h a) \<and>
           wf_heap h'"
proof -
  define a where "a = Data (Options (pollAt h p)) + i"
  define h1 where "h1 = h\<lparr>cellAt := (cellAt h)(a := (cellAt h a)\<lparr>Votes := Votes (cellAt h a) + 1\<rparr>)\<rparr>"
  define h' where "h' = snd (copyPoll h1 p)"
  have wf1: "wf_heap h1" and p1: "p < nextPoll h1" and np1: "nextPoll h1 = nextPoll h"
    and nc1: "nextCell h1 = nextCell h" and pa1: "pollAt h1 = pollAt h"
    using wf p by (simp_all add: h1_def)
  have cell: "cellAt h a = options_of h p ! i"
    using i by (simp add: a_def options_of_def elems_nth)
  have o1: "options_of h1 p =
      (options_of h p)[i := (options_of h p ! i)\<lparr>Votes := Votes (options_of h p ! i) + 1\<rparr>]"
    unfolding h1_def a_def cell [unfolded a_def, symmetric]
    by (rule options_of_cell_update [OF i])
  have v: "Vote now s h pollID optionID = (Inr (nextPoll h), s, h')"
    using p live loop
    by (simp add: Vote_def Let_def case_prod_beta a_def [symmetric] h1_def [symmetric] h'_def
        copyPoll_fst np1)
  have "options_of h' p = options_of h1 p"
    unfolding h'_def by (rule copyPoll_options_old [OF wf1 p1])
  moreover have "pollAt h' p = pollAt h p"
    unfolding h'_def using p1 by (simp add: copyPoll_pollAt_old pa1 np1)
  moreover have "deref h' (nextPoll h) = deref h' p"
    unfolding h'_def
    using copyPoll_deref_new [OF wf1 p1] copyPoll_deref_old [OF wf1 p1, of p] by (simp add: np1)
  moreover have "Data (Options (pollAt h' (nextPoll h))) = nextCell h"
    unfolding h'_def using copyPoll_pollAt_new [of h1 p] by (simp add: np1 nc1)
  moreover have "nextPoll h' = Suc (nextPoll h)"
    unfolding h'_def by (simp add: copyPoll_nextPoll np1)
  moreover have "\<forall>q<nextPoll h. pollAt h' q = pollAt h q"
    unfolding h'_def by (simp add: copyPoll_pollAt_old np1 pa1)
  moreover have "\<forall>b<nextCell h. b \<noteq> Data (Options (pollAt h p)) + i \<longrightarrow> cellAt h' b = cellAt h b"
    unfolding h'_def by (simp add: copyPoll_cellAt_old nc1) (simp add: h1_def a_def)
  moreover have "wf_heap h'"
    unfolding h'_def by (rule copyPoll_wf [OF wf1 p1])
  ultimately show ?thesis using v o1 by auto
qed

subsection \<open>The example state is well formed\<close>

lemma ex_wf_heap: "wf_heap ex_heap"
  by (auto simp: wf_heap_def ex_heap_def less_Suc_eq numeral_3_eq_3)

lemma ex_wf_store: "wf_store ex_store ex_heap"
  by (auto simp: wf_store_def ex_store_def ex_heap_def split: if_splits)

lemma ex_options_0:
  "options_of ex_heap 0 =
     [\<lparr>Option.ID = ''a'', Text = ''Tabs'', Votes = 25\<rparr>,
      \<lparr>Option.ID = ''b'', Text = ''Spaces'', Votes = 75\<rparr>]"
  by (simp add: options_of_def elems_def ex_heap_def upt_rec)

lemma ex_options_1:
  "options_of ex_heap 1 = [\<lparr>Option.ID = ''x'', Text = ''Soup'', Votes = 1\<rparr>]"
  by (simp add: options_of_def elems_def ex_heap_def upt_rec)

lemma ex_options_2:
  "options_of ex_heap 2 =
     [\<lparr>Option.ID = ''v'', Text = ''Vim'', Votes = 0\<rparr>,
      \<lparr>Option.ID = ''e'', Text = ''Emacs'', Votes = 0\<rparr>]"
  by (simp add: options_of_def elems_def ex_heap_def upt_rec)

subsection \<open>Insertion sort meets the contract of \<^verbatim>\<open>sort.Slice\<close>\<close>

lemma mset_insert_by: "mset (insert_by lt x xs) = add_mset x (mset xs)"
  by (induction xs) auto

lemma mset_insertion_sort: "mset (insertion_sort lt xs) = mset xs"
  by (induction xs) (auto simp: mset_insert_by)

lemma set_insert_by: "set (insert_by lt x xs) = insert x (set xs)"
  by (induction xs) auto

lemma sorted_insert_by:
  assumes "strict_weak_order lt" "sorted_wrt (\<lambda>a b. \<not> lt b a) xs"
  shows "sorted_wrt (\<lambda>a b. \<not> lt b a) (insert_by lt x xs)"
  using assms(2)
proof (induction xs)
  case Nil
  show ?case by simp
next
  case (Cons y ys)
  have asym: "\<And>a b. lt a b \<Longrightarrow> \<not> lt b a"
    using assms(1) unfolding strict_weak_order_def by blast
  have ntrans: "\<And>a b c. \<not> lt a b \<Longrightarrow> \<not> lt b c \<Longrightarrow> \<not> lt a c"
    using assms(1) unfolding strict_weak_order_def by blast
  show ?case
  proof (cases "lt y x")
    case True
    with Cons asym [OF True] show ?thesis
      by (auto simp: set_insert_by)
  next
    case False
    have "\<forall>z\<in>set ys. \<not> lt z x"
    proof
      fix z assume "z \<in> set ys"
      with Cons.prems have "\<not> lt z y" by simp
      from ntrans [OF this False] show "\<not> lt z x" .
    qed
    with False Cons.prems show ?thesis by simp
  qed
qed

lemma sorted_insertion_sort:
  "strict_weak_order lt \<Longrightarrow> sorted_wrt (\<lambda>a b. \<not> lt b a) (insertion_sort lt xs)"
  by (induction xs) (auto simp: sorted_insert_by)

lemma insertion_sort_spec: "sort_Slice_spec insertion_sort"
  by (simp add: sort_Slice_spec_def mset_insertion_sort sorted_insertion_sort)

lemma sort_Slice_set: "sort_Slice_spec srt \<Longrightarrow> set (srt lt xs) = set xs"
  unfolding sort_Slice_spec_def by (metis set_mset_mset)

subsection \<open>Writes through an isolated pointer\<close>

lemma cells_of_cellAt [simp]: "cells_of (h\<lparr>cellAt := f\<rparr>) p = cells_of h p"
  by (simp add: cells_of_def)

lemma wf_heap_cells: "wf_heap h \<Longrightarrow> q < nextPoll h \<Longrightarrow> cells_of h q \<subseteq> {..<nextCell h}"
  by (auto simp: cells_of_def dest: wf_heapD)

lemma options_of_cong:
  assumes "pollAt h' q = pollAt h q" "\<And>a. a \<in> cells_of h q \<Longrightarrow> cellAt h' a = cellAt h a"
  shows "options_of h' q = options_of h q"
  unfolding options_of_def
  by (rule elems_cong) (simp_all add: assms cells_of_def)

lemma deref_cong:
  assumes "pollAt h' q = pollAt h q" "\<And>a. a \<in> cells_of h q \<Longrightarrow> cellAt h' a = cellAt h a"
  shows "deref h' q = deref h q"
  using options_of_cong [OF assms] by (simp add: deref_def assms(1))

lemma mutate_frame:
  assumes wf: "wf_heap h" and r: "r < nextPoll h" and iso: "isolated h r"
    and m: "mutate h r m = Inr h'"
  shows "wf_heap h' \<and> nextPoll h' = nextPoll h \<and> isolated h' r \<and>
         (\<forall>q<nextPoll h. q \<noteq> r \<longrightarrow> deref h' q = deref h q)"
proof (cases m)
  case (SetOption i v)
  with m have i: "i < Len (Options (pollAt h r))"
    and h': "h' = h\<lparr>cellAt := (cellAt h)(Data (Options (pollAt h r)) + i := v)\<rparr>"
    by (auto split: if_splits)
  have in_r: "Data (Options (pollAt h r)) + i \<in> cells_of h r"
    using i by (simp add: cells_of_def)
  have "\<forall>q<nextPoll h. q \<noteq> r \<longrightarrow> deref h' q = deref h q"
  proof (intro allI impI)
    fix q assume q: "q < nextPoll h" "q \<noteq> r"
    with iso have "cells_of h r \<inter> cells_of h q = {}" by (simp add: isolated_def)
    with in_r have "Data (Options (pollAt h r)) + i \<notin> cells_of h q" by blast
    then show "deref h' q = deref h q"
      by (intro deref_cong) (auto simp: h')
  qed
  moreover have "isolated h' r" using iso by (simp add: isolated_def h')
  ultimately show ?thesis using wf by (simp add: h')
next
  case (SetOptions vs)
  with m have h': "h' = h\<lparr>pollAt := (pollAt h)(r := (pollAt h r)
              \<lparr>Options := \<lparr>Data = nextCell h, Len = length vs\<rparr>\<rparr>),
            cellAt := (\<lambda>a. if nextCell h \<le> a \<and> a < nextCell h + length vs
                            then vs ! (a - nextCell h) else cellAt h a),
            nextCell := nextCell h + length vs\<rparr>" by simp
  have old: "\<And>q. q < nextPoll h \<Longrightarrow> q \<noteq> r \<Longrightarrow> cells_of h' q = cells_of h q"
    by (simp add: h' cells_of_def)
  have new: "cells_of h' r = {nextCell h ..< nextCell h + length vs}"
    by (simp add: h' cells_of_def)
  have "wf_heap h'"
    unfolding wf_heap_def using wf_heapD [OF wf] by (auto simp: h' trans_le_add1)
  moreover have "isolated h' r"
    unfolding isolated_def
  proof (intro allI impI)
    fix q assume "q < nextPoll h'" "q \<noteq> r"
    then have q: "q < nextPoll h" "q \<noteq> r" by (simp_all add: h')
    from wf_heap_cells [OF wf q(1)] show "cells_of h' r \<inter> cells_of h' q = {}"
      unfolding old [OF q] new by auto
  qed
  moreover have "\<forall>q<nextPoll h. q \<noteq> r \<longrightarrow> deref h' q = deref h q"
  proof (intro allI impI)
    fix q assume q: "q < nextPoll h" "q \<noteq> r"
    from wf_heap_cells [OF wf q(1)] q(2) show "deref h' q = deref h q"
      by (intro deref_cong) (auto simp: h')
  qed
  ultimately show ?thesis by (simp add: h')
qed (use assms in \<open>auto simp: wf_heap_def isolated_def cells_of_def deref_def options_of_def elems_def\<close>)

lemma mutate_all_frame:
  assumes "wf_heap h" "r < nextPoll h" "isolated h r" "q < nextPoll h" "q \<noteq> r"
  shows "deref (mutate_all h r ms) q = deref h q"
  using assms
proof (induction ms arbitrary: h)
  case Nil
  show ?case by simp
next
  case (Cons m ms)
  show ?case
  proof (cases "mutate h r m")
    case (Inl pn)
    then show ?thesis by simp
  next
    case (Inr h1)
    from mutate_frame [OF Cons.prems(1-3) Inr] Cons.prems(4,5)
    have "wf_heap h1" "nextPoll h1 = nextPoll h" "isolated h1 r" "deref h1 q = deref h q"
      by auto
    with Cons.IH [of h1] Cons.prems(2,4,5) Inr show ?thesis by simp
  qed
qed

lemma independentI:
  assumes "wf_heap h'" "nextPoll h \<le> r" "r < nextPoll h'" "isolated h' r"
  shows "independent h h' r"
  unfolding independent_def using assms mutate_all_frame [OF assms(1,3,4)] by blast

lemma copyPoll_cells_new:
  "cells_of (snd (copyPoll h p)) (nextPoll h) =
     {nextCell h ..< nextCell h + Len (Options (pollAt h p))}"
  by (simp add: cells_of_def copyPoll_pollAt_new)

lemma copyPoll_cells_old:
  "q < nextPoll h \<Longrightarrow> cells_of (snd (copyPoll h p)) q = cells_of h q"
  by (simp add: cells_of_def copyPoll_pollAt_old)

lemma copyPoll_isolated_new:
  assumes "wf_heap h"
  shows "isolated (snd (copyPoll h p)) (nextPoll h)"
  unfolding isolated_def
proof (intro allI impI)
  fix q assume "q < nextPoll (snd (copyPoll h p))" "q \<noteq> nextPoll h"
  then have q: "q < nextPoll h" by (simp add: copyPoll_nextPoll)
  from wf_heap_cells [OF assms q]
  show "cells_of (snd (copyPoll h p)) (nextPoll h) \<inter> cells_of (snd (copyPoll h p)) q = {}"
    unfolding copyPoll_cells_new copyPoll_cells_old [OF q] by auto
qed

lemma copyPoll_isolated_old:
  assumes "wf_heap h" "r < nextPoll h" "isolated h r"
  shows "isolated (snd (copyPoll h p)) r"
  unfolding isolated_def
proof (intro allI impI)
  fix q assume "q < nextPoll (snd (copyPoll h p))" "q \<noteq> r"
  then consider "q < nextPoll h" "q \<noteq> r" | "q = nextPoll h"
    by (auto simp: copyPoll_nextPoll less_Suc_eq)
  then show "cells_of (snd (copyPoll h p)) r \<inter> cells_of (snd (copyPoll h p)) q = {}"
  proof cases
    case 1
    with assms(3) show ?thesis
      by (simp add: copyPoll_cells_old assms(2) isolated_def)
  next
    case 2
    from wf_heap_cells [OF assms(1,2)] show ?thesis
      unfolding 2 copyPoll_cells_new copyPoll_cells_old [OF assms(2)] by auto
  qed
qed

lemma copyPoll_independent:
  assumes "wf_heap h" "p < nextPoll h"
  shows "independent h (snd (copyPoll h p)) (nextPoll h)"
  by (rule independentI [OF copyPoll_wf [OF assms]])
     (simp_all add: copyPoll_nextPoll copyPoll_isolated_new [OF assms(1)])

lemma wf_storeD: "wf_store s h \<Longrightarrow> polls s k = Some p \<Longrightarrow> p < nextPoll h"
  by (auto simp: wf_store_def)

lemma Get_Some:
  "polls s pid = Some p \<Longrightarrow> Get s h pid = ((Some (nextPoll h), True), snd (copyPoll h p))"
  by (simp add: Get_def case_prod_beta copyPoll_fst)

lemma Get_None: "polls s pid = None \<Longrightarrow> Get s h pid = ((None, False), h)"
  by (simp add: Get_def)

lemma Vote_Inr:
  assumes "Vote now s h pollID optionID = (Inr r, s', h')"
  shows "\<exists>p a. polls s pollID = Some p \<and> s' = s \<and> r = nextPoll h \<and>
           h' = snd (copyPoll (h\<lparr>cellAt := (cellAt h)(a := (cellAt h a)\<lparr>Votes := Votes (cellAt h a) + 1\<rparr>)\<rparr>) p)"
  using assms
  by (auto simp: Vote_def Let_def case_prod_beta copyPoll_fst split: option.splits if_splits)

subsection \<open>The loop of \<^verbatim>\<open>List\<close>, for the keys of \<open>ks\<close> that the map holds\<close>

lemma List_range_props:
  assumes "wf_heap h" "wf_store s h"
  shows "\<exists>h'. List_range s h ks acc =
           (acc @ [nextPoll h ..< nextPoll h + length (filter (\<lambda>k. polls s k \<noteq> None) ks)], h') \<and>
         wf_heap h' \<and>
         nextPoll h' = nextPoll h + length (filter (\<lambda>k. polls s k \<noteq> None) ks) \<and>
         (\<forall>q<nextPoll h. deref h' q = deref h q \<and> pollAt h' q = pollAt h q \<and>
                          (isolated h q \<longrightarrow> isolated h' q)) \<and>
         (\<forall>j<length (filter (\<lambda>k. polls s k \<noteq> None) ks).
            deref h' (nextPoll h + j) =
              deref h (the (polls s (filter (\<lambda>k. polls s k \<noteq> None) ks ! j))) \<and>
            isolated h' (nextPoll h + j))"
  using assms
proof (induction ks arbitrary: h acc)
  case Nil
  then show ?case by simp
next
  case (Cons k ks)
  let ?kk = "filter (\<lambda>k. polls s k \<noteq> None) ks"
  show ?case
  proof (cases "polls s k")
    case None
    with Cons.IH [OF Cons.prems, of acc] show ?thesis by simp
  next
    case (Some p)
    define h1 where "h1 = snd (copyPoll h p)"
    have p: "p < nextPoll h" by (rule wf_storeD [OF Cons.prems(2) Some])
    have wf1: "wf_heap h1" unfolding h1_def by (rule copyPoll_wf [OF Cons.prems(1) p])
    have np1: "nextPoll h1 = Suc (nextPoll h)" by (simp add: h1_def copyPoll_nextPoll)
    have ws1: "wf_store s h1"
      using Cons.prems(2) by (auto simp: wf_store_def np1 less_Suc_eq)
    from Cons.IH [OF wf1 ws1, of "acc @ [nextPoll h]"] obtain h' where
      run: "List_range s h1 ks (acc @ [nextPoll h]) =
              ((acc @ [nextPoll h]) @ [nextPoll h1 ..< nextPoll h1 + length ?kk], h')"
      and wf': "wf_heap h'" and np': "nextPoll h' = nextPoll h1 + length ?kk"
      and old: "\<forall>q<nextPoll h1. deref h' q = deref h1 q \<and> pollAt h' q = pollAt h1 q \<and>
                          (isolated h1 q \<longrightarrow> isolated h' q)"
      and new: "\<forall>j<length ?kk. deref h' (nextPoll h1 + j) = deref h1 (the (polls s (?kk ! j))) \<and>
            isolated h' (nextPoll h1 + j)"
      by blast
    have len: "length (filter (\<lambda>k. polls s k \<noteq> None) (k # ks)) = Suc (length ?kk)"
      using Some by simp
    have upt: "[nextPoll h ..< nextPoll h + Suc (length ?kk)] =
               nextPoll h # [nextPoll h1 ..< nextPoll h1 + length ?kk]"
      unfolding np1 by (subst upt_conv_Cons) simp_all
    have "List_range s h (k # ks) acc = List_range s h1 ks (acc @ [nextPoll h])"
      using Some by (simp add: case_prod_beta copyPoll_fst h1_def)
    then have 1: "List_range s h (k # ks) acc =
           (acc @ [nextPoll h ..< nextPoll h + length (filter (\<lambda>k. polls s k \<noteq> None) (k # ks))], h')"
      unfolding len upt run by simp
    have 2: "nextPoll h' = nextPoll h + length (filter (\<lambda>k. polls s k \<noteq> None) (k # ks))"
      using Some np' np1 by simp
    have 3: "\<forall>q<nextPoll h. deref h' q = deref h q \<and> pollAt h' q = pollAt h q \<and>
                          (isolated h q \<longrightarrow> isolated h' q)"
    proof (intro allI impI)
      fix q assume q: "q < nextPoll h"
      then have q1: "q < nextPoll h1" by (simp add: np1)
      have "deref h1 q = deref h q"
        unfolding h1_def by (rule copyPoll_deref_old [OF Cons.prems(1) q])
      moreover have "pollAt h1 q = pollAt h q"
        unfolding h1_def using q by (simp add: copyPoll_pollAt_old)
      moreover have "isolated h q \<Longrightarrow> isolated h1 q"
        unfolding h1_def by (rule copyPoll_isolated_old [OF Cons.prems(1) q])
      ultimately show "deref h' q = deref h q \<and> pollAt h' q = pollAt h q \<and>
                          (isolated h q \<longrightarrow> isolated h' q)"
        using old q1 by auto
    qed
    have 4: "\<forall>j<length (filter (\<lambda>k. polls s k \<noteq> None) (k # ks)).
            deref h' (nextPoll h + j) =
              deref h (the (polls s (filter (\<lambda>k. polls s k \<noteq> None) (k # ks) ! j))) \<and>
            isolated h' (nextPoll h + j)"
    proof (intro allI impI)
      fix j assume j: "j < length (filter (\<lambda>k. polls s k \<noteq> None) (k # ks))"
      show "deref h' (nextPoll h + j) =
              deref h (the (polls s (filter (\<lambda>k. polls s k \<noteq> None) (k # ks) ! j))) \<and>
            isolated h' (nextPoll h + j)"
      proof (cases j)
        case 0
        have "deref h1 (nextPoll h) = deref h p"
          unfolding h1_def by (rule copyPoll_deref_new [OF Cons.prems(1) p])
        moreover have "isolated h1 (nextPoll h)"
          unfolding h1_def by (rule copyPoll_isolated_new [OF Cons.prems(1)])
        ultimately show ?thesis
          using old [rule_format, of "nextPoll h"] Some 0 by (simp add: np1)
      next
        case (Suc j')
        with j Some have j': "j' < length ?kk" by simp
        have "the (polls s (?kk ! j')) < nextPoll h"
        proof -
          have "?kk ! j' \<in> set ?kk" using j' by (rule nth_mem)
          then obtain p' where "polls s (?kk ! j') = Some p'" by auto
          with wf_storeD [OF Cons.prems(2) this] show ?thesis by simp
        qed
        then have "deref h1 (the (polls s (?kk ! j'))) = deref h (the (polls s (?kk ! j')))"
          unfolding h1_def by (rule copyPoll_deref_old [OF Cons.prems(1)])
        with new [rule_format, OF j'] Some Suc show ?thesis by (simp add: np1)
      qed
    qed
    from 1 wf' 2 3 4 show ?thesis by blast
  qed
qed

lemma Vote_loop_unfold:
  "Vote_loop h optionID a n =
     (if n = 0 then None
      else if Option.ID (cellAt h a) = optionID then Some a
      else Vote_loop h optionID (Suc a) (n - 1))"
  by (cases n) simp_all

lemma List_result:
  assumes "wf_heap h" "wf_store s h"
  shows "\<exists>h'. List srt ks s h =
           (srt (\<lambda>a b. After (CreatedAt (pollAt h' a)) (CreatedAt (pollAt h' b)))
              [nextPoll h ..< nextPoll h + length (filter (\<lambda>k. polls s k \<noteq> None) ks)], h') \<and>
         wf_heap h' \<and>
         nextPoll h' = nextPoll h + length (filter (\<lambda>k. polls s k \<noteq> None) ks) \<and>
         (\<forall>q<nextPoll h. deref h' q = deref h q \<and> pollAt h' q = pollAt h q \<and>
                          (isolated h q \<longrightarrow> isolated h' q)) \<and>
         (\<forall>j<length (filter (\<lambda>k. polls s k \<noteq> None) ks).
            deref h' (nextPoll h + j) =
              deref h (the (polls s (filter (\<lambda>k. polls s k \<noteq> None) ks ! j))) \<and>
            isolated h' (nextPoll h + j))"
proof -
  from List_range_props [OF assms, of ks "[]"] obtain h' where
    "List_range s h ks [] =
       ([] @ [nextPoll h ..< nextPoll h + length (filter (\<lambda>k. polls s k \<noteq> None) ks)], h')"
    and rest: "wf_heap h'"
      "nextPoll h' = nextPoll h + length (filter (\<lambda>k. polls s k \<noteq> None) ks)"
      "\<forall>q<nextPoll h. deref h' q = deref h q \<and> pollAt h' q = pollAt h q \<and>
                          (isolated h q \<longrightarrow> isolated h' q)"
      "\<forall>j<length (filter (\<lambda>k. polls s k \<noteq> None) ks).
            deref h' (nextPoll h + j) =
              deref h (the (polls s (filter (\<lambda>k. polls s k \<noteq> None) ks ! j))) \<and>
            isolated h' (nextPoll h + j)"
    by blast
  then have "List srt ks s h =
           (srt (\<lambda>a b. After (CreatedAt (pollAt h' a)) (CreatedAt (pollAt h' b)))
              [nextPoll h ..< nextPoll h + length (filter (\<lambda>k. polls s k \<noteq> None) ks)], h')"
    by (simp add: List_def)
  with rest show ?thesis by blast
qed

lemma deref_eq_iff:
  "deref h' q = deref h p \<longleftrightarrow>
     Poll.ID (pollAt h' q) = Poll.ID (pollAt h p) \<and> Question (pollAt h' q) = Question (pollAt h p) \<and>
     options_of h' q = options_of h p \<and> CreatedAt (pollAt h' q) = CreatedAt (pollAt h p) \<and>
     ExpiresAt (pollAt h' q) = ExpiresAt (pollAt h p)"
  by (auto simp: deref_def)

lemma ex_polls:
  "polls ex_store ''p1'' = Some 0" "polls ex_store ''p2'' = Some 1" "polls ex_store ''nope'' = None"
  by (simp_all add: ex_store_def)

lemma ex_next: "nextPoll ex_heap = 3" "nextCell ex_heap = 5"
  by (simp_all add: ex_heap_def)

lemma ex_pollAt:
  "pollAt ex_heap 0 = \<lparr>Poll.ID = ''p1'', Question = ''Tabs or spaces?'',
               Options = \<lparr>Data = 0, Len = 2\<rparr>, CreatedAt = 10, ExpiresAt = 0\<rparr>"
  "pollAt ex_heap 1 = \<lparr>Poll.ID = ''p2'', Question = ''Lunch?'',
               Options = \<lparr>Data = 2, Len = 1\<rparr>, CreatedAt = 20, ExpiresAt = 30\<rparr>"
  "pollAt ex_heap 2 = \<lparr>Poll.ID = ''p1'', Question = ''Vim or Emacs?'',
               Options = \<lparr>Data = 3, Len = 2\<rparr>, CreatedAt = 0, ExpiresAt = 0\<rparr>"
  by (simp_all add: ex_heap_def)

lemma ex_cellAt:
  "cellAt ex_heap 0 = \<lparr>Option.ID = ''a'', Text = ''Tabs'', Votes = 25\<rparr>"
  "cellAt ex_heap 1 = \<lparr>Option.ID = ''b'', Text = ''Spaces'', Votes = 75\<rparr>"
  "cellAt ex_heap 2 = \<lparr>Option.ID = ''x'', Text = ''Soup'', Votes = 1\<rparr>"
  by (simp_all add: ex_heap_def)

lemma ex_not_expired: "\<not> IsExpired 40 ex_heap 0"
  by (simp add: IsExpired_def IsZero_def ex_pollAt)

lemma ex_Vote_loop_a: "Vote_loop ex_heap ''a'' (Data (Options (pollAt ex_heap 0)))
     (Len (Options (pollAt ex_heap 0))) = Some (Data (Options (pollAt ex_heap 0)) + 0)"
  by (simp add: ex_pollAt Vote_loop_unfold [of ex_heap _ _ "numeral n" for n] ex_cellAt)

subsection \<open>\<^verbatim>\<open>Create\<close>\<close>

lemma Create_Some:
  "Create now rnd s h (Some p) =
     Inr (s\<lparr>polls := (polls s)(Create_key rnd h p \<mapsto> p)\<rparr>,
          h\<lparr>pollAt := (pollAt h)(p := (pollAt h p)\<lparr>Poll.ID := Create_key rnd h p, CreatedAt := now\<rparr>)\<rparr>)"
  by (simp add: Create_def Create_key_def Let_def)

lemma wf_heap_pollAt_fields:
  "Options v = Options (pollAt h p) \<Longrightarrow> wf_heap (h\<lparr>pollAt := (pollAt h)(p := v)\<rparr>) = wf_heap h"
  by (auto simp: wf_heap_def)

lemma options_of_pollAt_fields:
  "Options v = Options (pollAt h p) \<Longrightarrow> options_of (h\<lparr>pollAt := (pollAt h)(p := v)\<rparr>) q = options_of h q"
  by (simp add: options_of_def elems_def)

lemma ex_Create_key: "Poll.ID (pollAt ex_heap 2) = ''p1''"
  by (simp add: ex_pollAt)

subsection \<open>One step of a run\<close>

lemma generateID_nonempty: "generateID rnd \<noteq> []"
  by (cases rnd) (simp add: generateID_def hex_EncodeToString_def)

lemma Create_key_nonempty: "Create_key rnd h p \<noteq> []"
  by (simp add: Create_key_def generateID_nonempty)

lemma new_Poll_props:
  assumes "wf_heap h"
  shows "wf_heap (snd (new_Poll h pid q opts expires))"
    and "nextPoll (snd (new_Poll h pid q opts expires)) = Suc (nextPoll h)"
    and "r < nextPoll h \<Longrightarrow> pollAt (snd (new_Poll h pid q opts expires)) r = pollAt h r"
    and "r < nextPoll h \<Longrightarrow> options_of (snd (new_Poll h pid q opts expires)) r = options_of h r"
proof -
  show "wf_heap (snd (new_Poll h pid q opts expires))"
    unfolding wf_heap_def using wf_heapD [OF assms]
    by (auto simp: new_Poll_def less_Suc_eq trans_le_add1)
  show "nextPoll (snd (new_Poll h pid q opts expires)) = Suc (nextPoll h)"
    by (simp add: new_Poll_def)
  show "pollAt (snd (new_Poll h pid q opts expires)) r = pollAt h r" if "r < nextPoll h"
    using that by (simp add: new_Poll_def)
  show "options_of (snd (new_Poll h pid q opts expires)) r = options_of h r" if "r < nextPoll h"
    using that wf_heap_cells [OF assms that]
    by (intro options_of_cong) (auto simp: new_Poll_def)
qed

lemma Vote_Inl:
  "Vote now s h pollID optionID = (Inl e, s', h') \<Longrightarrow> s' = s \<and> h' = h"
  by (auto simp: Vote_def Let_def case_prod_beta split: option.splits if_splits)

lemma grown_refl: "grown 0 xs xs"
  by (simp add: grown_def)

lemma bumped_grown: "bumped old new \<Longrightarrow> grown 1 old new"
  unfolding bumped_def grown_def
proof (elim disjE exE conjE)
  assume "new = old"
  then show "length new = length old \<and>
     (\<forall>i<length old. Option.ID (new ! i) = Option.ID (old ! i) \<and> Text (new ! i) = Text (old ! i) \<and>
        (\<exists>k\<le>1. Votes (new ! i) = Votes (old ! i) + of_nat k))"
    by (auto intro: exI [of _ 0])
next
  fix i assume i: "i < length old" and n: "new = old[i := (old ! i)\<lparr>Votes := Votes (old ! i) + 1\<rparr>]"
  show "length new = length old \<and>
     (\<forall>j<length old. Option.ID (new ! j) = Option.ID (old ! j) \<and> Text (new ! j) = Text (old ! j) \<and>
        (\<exists>k\<le>1. Votes (new ! j) = Votes (old ! j) + of_nat k))"
  proof (intro conjI allI impI)
    fix j assume j: "j < length old"
    show "\<exists>k\<le>1. Votes (new ! j) = Votes (old ! j) + of_nat k"
    proof (cases "j = i")
      case True
      with i n show ?thesis by (intro exI [of _ 1]) simp
    next
      case False
      with j n show ?thesis by (intro exI [of _ 0]) simp
    qed
  qed (use i n in \<open>auto simp: nth_list_update\<close>)
qed

lemma grown_trans:
  assumes "grown n a b" "grown m b c"
  shows "grown (n + m) a c"
  unfolding grown_def
proof (intro conjI allI impI)
  show "length c = length a" using assms by (simp add: grown_def)
next
  fix i assume i: "i < length a"
  then have i': "i < length b" using assms(1) by (simp add: grown_def)
  from assms(1) i obtain k where k: "k \<le> n" "Votes (b ! i) = Votes (a ! i) + of_nat k"
    and ab: "Option.ID (b ! i) = Option.ID (a ! i)" "Text (b ! i) = Text (a ! i)"
    unfolding grown_def by blast
  from assms(2) i' obtain l where l: "l \<le> m" "Votes (c ! i) = Votes (b ! i) + of_nat l"
    and bc: "Option.ID (c ! i) = Option.ID (b ! i)" "Text (c ! i) = Text (b ! i)"
    unfolding grown_def by blast
  show "Option.ID (c ! i) = Option.ID (a ! i)" using ab bc by simp
  show "Text (c ! i) = Text (a ! i)" using ab bc by simp
  have "Votes (c ! i) = Votes (a ! i) + of_nat (k + l)" using k l by simp
  moreover have "k + l \<le> n + m" using k l by simp
  ultimately show "\<exists>k\<le>n + m. Votes (c ! i) = Votes (a ! i) + of_nat k" by blast
qed

lemma options_of_cell_bump:
  "bumped (options_of h r)
     (options_of (h\<lparr>cellAt := (cellAt h)(a := (cellAt h a)\<lparr>Votes := Votes (cellAt h a) + 1\<rparr>)\<rparr>) r)"
proof (cases "a \<in> cells_of h r")
  case True
  define i where "i = a - Data (Options (pollAt h r))"
  from True have i: "i < Len (Options (pollAt h r))" "a = Data (Options (pollAt h r)) + i"
    by (auto simp: cells_of_def i_def)
  have "cellAt h a = options_of h r ! i"
    using i by (simp add: options_of_def elems_nth)
  with options_of_cell_update [OF i(1), of "(cellAt h a)\<lparr>Votes := Votes (cellAt h a) + 1\<rparr>"] i
  show ?thesis unfolding bumped_def
    by (intro disjI2 exI [of _ i]) (simp add: options_of_def)
next
  case False
  have "options_of (h\<lparr>cellAt := (cellAt h)(a := (cellAt h a)\<lparr>Votes := Votes (cellAt h a) + 1\<rparr>)\<rparr>) r =
        options_of h r"
    using False by (intro options_of_cong) auto
  then show ?thesis by (simp add: bumped_def)
qed

lemma store_invD:
  assumes "store_inv (s, h)"
  shows "wf_heap h" "wf_store s h" "polls s [] = None"
    "\<And>k r. polls s k = Some r \<Longrightarrow> Poll.ID (pollAt h r) = k"
    "\<And>k r. polls s k = Some r \<Longrightarrow> r < nextPoll h"
  using assms by (auto simp: store_inv_def wf_store_def)

lemma store_invI:
  assumes "wf_heap h" "\<And>k r. polls s k = Some r \<Longrightarrow> r < nextPoll h \<and> Poll.ID (pollAt h r) = k"
    "polls s [] = None"
  shows "store_inv (s, h)"
  using assms by (auto simp: store_inv_def wf_store_def)

text \<open>A step that only allocates: the records that exist stay as they are.\<close>

lemma store_inv_alloc:
  assumes "store_inv (s, h)" "wf_heap h'" "nextPoll h \<le> nextPoll h'"
    "\<And>q. q < nextPoll h \<Longrightarrow> pollAt h' q = pollAt h q"
  shows "store_inv (s, h')"
proof (rule store_invI [OF assms(2)])
  fix k r assume "polls s k = Some r"
  with store_invD(4,5) [OF assms(1) this] assms(3,4)
  show "r < nextPoll h' \<and> Poll.ID (pollAt h' r) = k" by auto
qed (rule store_invD(3) [OF assms(1)])

lemma step_inv:
  assumes inv: "store_inv st" and v: "valid_op c st"
  shows "store_inv (step c st)"
proof -
  obtain s h where st: "st = (s, h)" by (cases st)
  note I = store_invD [OF inv [unfolded st]]
  show ?thesis
  proof (cases c)
    case (OpNew pid q opts expires)
    show ?thesis unfolding st OpNew step.simps
      by (rule store_inv_alloc [OF inv [unfolded st]])
         (simp_all add: new_Poll_props [OF I(1)])
  next
    case (OpCreate now rnd poll)
    show ?thesis
    proof (cases poll)
      case None
      with inv show ?thesis by (simp add: st OpCreate Create_def)
    next
      case (Some p)
      with v have p: "p < nextPoll h" by (simp add: st OpCreate)
      let ?k = "Create_key rnd h p"
      let ?h = "h\<lparr>pollAt := (pollAt h)(p := (pollAt h p)\<lparr>Poll.ID := ?k, CreatedAt := now\<rparr>)\<rparr>"
      have "store_inv (s\<lparr>polls := (polls s)(?k \<mapsto> p)\<rparr>, ?h)"
      proof (rule store_invI)
        show "wf_heap ?h" using I(1) by (simp add: wf_heap_pollAt_fields)
        show "polls (s\<lparr>polls := (polls s)(?k \<mapsto> p)\<rparr>) [] = None"
          using I(3) Create_key_nonempty [of rnd h p] by simp
        fix k r assume kr: "polls (s\<lparr>polls := (polls s)(?k \<mapsto> p)\<rparr>) k = Some r"
        show "r < nextPoll ?h \<and> Poll.ID (pollAt ?h r) = k"
        proof (cases "k = ?k")
          case True
          with kr p show ?thesis by simp
        next
          case False
          with kr have old: "polls s k = Some r" by simp
          have "r \<noteq> p"
          proof
            assume "r = p"
            with I(4) [OF old] have "Poll.ID (pollAt h p) = k" by simp
            moreover from old I(3) have "k \<noteq> []" by auto
            ultimately have "?k = k" by (simp add: Create_key_def)
            with False show False by simp
          qed
          with I(4,5) [OF old] show ?thesis by simp
        qed
      qed
      then show ?thesis by (simp add: st OpCreate Some Create_Some)
    qed
  next
    case (OpGet pid)
    show ?thesis
    proof (cases "polls s pid")
      case None
      with inv show ?thesis by (simp add: st OpGet Get_None)
    next
      case (Some p)
      show ?thesis unfolding st OpGet step.simps Get_Some [OF Some] snd_conv
        by (rule store_inv_alloc [OF inv [unfolded st] copyPoll_wf [OF I(1) I(5) [OF Some]]])
           (simp_all add: copyPoll_nextPoll copyPoll_pollAt_old)
    qed
  next
    case (OpVote now pollID optionID)
    obtain res s' h' where vt: "Vote now s h pollID optionID = (res, s', h')"
      by (cases "Vote now s h pollID optionID") auto
    show ?thesis
    proof (cases res)
      case (Inl e)
      with Vote_Inl vt have "s' = s" "h' = h" by blast+
      with inv show ?thesis by (simp add: st OpVote vt)
    next
      case (Inr r)
      from Vote_Inr [OF vt [unfolded Inr]] obtain p a where p: "polls s pollID = Some p"
        and s': "s' = s"
        and h': "h' = snd (copyPoll (h\<lparr>cellAt := (cellAt h)(a := (cellAt h a)\<lparr>Votes := Votes (cellAt h a) + 1\<rparr>)\<rparr>) p)"
        by blast
      let ?h1 = "h\<lparr>cellAt := (cellAt h)(a := (cellAt h a)\<lparr>Votes := Votes (cellAt h a) + 1\<rparr>)\<rparr>"
      have "wf_heap ?h1" "p < nextPoll ?h1" using I(1) I(5) [OF p] by simp_all
      from copyPoll_wf [OF this] have "store_inv (s, h')"
        unfolding h'
        by (rule store_inv_alloc [OF inv [unfolded st]])
           (simp_all add: copyPoll_nextPoll copyPoll_pollAt_old)
      then show ?thesis by (simp add: st OpVote vt s')
    qed
  next
    case (OpList srt ks)
    from List_result [OF I(1,2), of srt ks] obtain h' where
      "snd (List srt ks s h) = h'" "wf_heap h'" "nextPoll h \<le> nextPoll h'"
      "\<forall>q<nextPoll h. pollAt h' q = pollAt h q"
      by force
    then show ?thesis unfolding st OpList step.simps
      by (intro store_inv_alloc [OF inv [unfolded st]]) simp_all
  next
    case (OpDelete pid)
    have "store_inv (snd (Delete s pid), h)"
      by (rule store_invI [OF I(1)])
         (use I(3,4,5) in \<open>auto simp: Delete_def split: option.splits if_splits\<close>)
    then show ?thesis by (simp add: st OpDelete)
  qed
qed

lemma step_keeps:
  assumes inv: "store_inv (s, h)" and v: "valid_op c (s, h)"
    and nt: "\<not> touches X c (s, h)" and X: "polls s X = Some r"
  shows "polls (fst (step c (s, h))) X = Some r \<and>
         pollAt (snd (step c (s, h))) r = pollAt h r \<and>
         bumped (options_of h r) (options_of (snd (step c (s, h))) r)"
proof -
  note I = store_invD [OF inv]
  have r: "r < nextPoll h" by (rule I(5) [OF X])
  show ?thesis
  proof (cases c)
    case (OpNew pid q opts expires)
    with X r show ?thesis by (simp add: new_Poll_props [OF I(1)] bumped_def)
  next
    case (OpCreate now rnd poll)
    show ?thesis
    proof (cases poll)
      case None
      with X show ?thesis by (simp add: OpCreate Create_def bumped_def)
    next
      case (Some p)
      with nt have k: "Create_key rnd h p \<noteq> X" by (simp add: OpCreate)
      have "r \<noteq> p"
      proof
        assume "r = p"
        with I(4) [OF X] have "Poll.ID (pollAt h p) = X" by simp
        moreover from X I(3) have "X \<noteq> []" by auto
        ultimately show False using k by (simp add: Create_key_def)
      qed
      then have "options_of (h\<lparr>pollAt := (pollAt h)
          (p := (pollAt h p)\<lparr>Poll.ID := Create_key rnd h p, CreatedAt := now\<rparr>)\<rparr>) r = options_of h r"
        by (simp add: options_of_pollAt_fields)
      with X k \<open>r \<noteq> p\<close> show ?thesis
        by (simp add: OpCreate Some Create_Some bumped_def)
    qed
  next
    case (OpGet pid)
    show ?thesis
    proof (cases "polls s pid")
      case None
      with X show ?thesis by (simp add: OpGet Get_None bumped_def)
    next
      case (Some p)
      with X r show ?thesis
        by (simp add: OpGet Get_Some copyPoll_pollAt_old copyPoll_options_old [OF I(1) r] bumped_def)
    qed
  next
    case (OpVote now pollID optionID)
    obtain res s' h' where vt: "Vote now s h pollID optionID = (res, s', h')"
      by (cases "Vote now s h pollID optionID") auto
    show ?thesis
    proof (cases res)
      case (Inl e)
      with Vote_Inl vt have "s' = s" "h' = h" by blast+
      with X show ?thesis by (simp add: OpVote vt bumped_def)
    next
      case (Inr r')
      from Vote_Inr [OF vt [unfolded Inr]] obtain p a where p: "polls s pollID = Some p"
        and s': "s' = s"
        and h': "h' = snd (copyPoll (h\<lparr>cellAt := (cellAt h)(a := (cellAt h a)\<lparr>Votes := Votes (cellAt h a) + 1\<rparr>)\<rparr>) p)"
        by blast
      let ?h1 = "h\<lparr>cellAt := (cellAt h)(a := (cellAt h a)\<lparr>Votes := Votes (cellAt h a) + 1\<rparr>)\<rparr>"
      have wf1: "wf_heap ?h1" and r1: "r < nextPoll ?h1" using I(1) r by simp_all
      have "options_of h' r = options_of ?h1 r"
        unfolding h' by (rule copyPoll_options_old [OF wf1 r1])
      moreover have "pollAt h' r = pollAt h r"
        unfolding h' using r by (simp add: copyPoll_pollAt_old)
      ultimately show ?thesis
        using X options_of_cell_bump [of h r a] by (simp add: OpVote vt s')
    qed
  next
    case (OpList srt ks)
    from List_result [OF I(1,2), of srt ks] obtain h' where
      "snd (List srt ks s h) = h'"
      "\<forall>q<nextPoll h. deref h' q = deref h q \<and> pollAt h' q = pollAt h q"
      by force
    with r X show ?thesis
      by (auto simp: OpList deref_eq_iff bumped_def)
  next
    case (OpDelete pid)
    with nt X show ?thesis
      by (auto simp: Delete_def bumped_def split: option.splits)
  qed
qed

lemma run_keeps:
  assumes "store_inv st" "valid_run cs st" "keeps X cs st" "polls (fst st) X = Some r"
  shows "store_inv (run cs st) \<and> polls (fst (run cs st)) X = Some r \<and>
         pollAt (snd (run cs st)) r = pollAt (snd st) r \<and>
         grown (length cs) (options_of (snd st) r) (options_of (snd (run cs st)) r)"
  using assms
proof (induction cs arbitrary: st)
  case Nil
  then show ?case by (simp add: grown_refl)
next
  case (Cons c cs)
  obtain s h where st: "st = (s, h)" by (cases st)
  from Cons.prems have v: "valid_op c (s, h)" and nt: "\<not> touches X c (s, h)"
    and vr: "valid_run cs (step c st)" and kr: "keeps X cs (step c st)"
    and X: "polls s X = Some r"
    by (simp_all add: st)
  from step_keeps [OF Cons.prems(1) [unfolded st] v nt X]
  have 1: "polls (fst (step c st)) X = Some r" "pollAt (snd (step c st)) r = pollAt h r"
    "bumped (options_of h r) (options_of (snd (step c st)) r)"
    by (simp_all add: st)
  have inv1: "store_inv (step c st)"
    by (rule step_inv [OF Cons.prems(1)]) (simp add: st v)
  from Cons.IH [OF inv1 vr kr 1(1)]
  have 2: "store_inv (run cs (step c st))" "polls (fst (run cs (step c st))) X = Some r"
    "pollAt (snd (run cs (step c st))) r = pollAt (snd (step c st)) r"
    "grown (length cs) (options_of (snd (step c st)) r) (options_of (snd (run cs (step c st))) r)"
    by simp_all
  from grown_trans [OF bumped_grown [OF 1(3)] 2(4)]
  have "grown (length (c # cs)) (options_of (snd st) r) (options_of (snd (run (c # cs) st)) r)"
    by (simp add: st)
  with 1 2 show ?case by (simp add: st)
qed

lemma sint_add_of_nat:
  fixes w :: "64 word"
  assumes "sint w + int k < 2 ^ 63"
  shows "sint (w + of_nat k) = sint w + int k"
proof -
  have "w + of_nat k = word_of_int (sint w + int k)"
    by simp
  then have "sint (w + of_nat k) = signed_take_bit 63 (sint w + int k)"
    by (simp only: sint_sbintrunc') simp
  moreover have "- (2 ^ 63) \<le> sint w + int k"
    using sint_ge [of w] by simp
  ultimately show ?thesis
    using assms by (simp add: signed_take_bit_int_eq_self)
qed

lemma grown_sint:
  assumes "grown n old new" "i < length old" "sint (Votes (old ! i)) + int n < 2 ^ 63"
  shows "sint (Votes (old ! i)) \<le> sint (Votes (new ! i))"
proof -
  from assms(1,2) obtain k where k: "k \<le> n" "Votes (new ! i) = Votes (old ! i) + of_nat k"
    unfolding grown_def by blast
  with assms(3) have "sint (Votes (old ! i)) + int k < 2 ^ 63" by simp
  from sint_add_of_nat [OF this] k(2) show ?thesis by simp
qed

lemmas ex_pollAt_Suc = ex_pollAt(2) [unfolded One_nat_def]

lemma ex_store_inv: "store_inv (ex_store, ex_heap)"
  by (rule store_invI [OF ex_wf_heap])
     (auto simp: ex_store_def ex_next ex_pollAt ex_pollAt_Suc split: if_splits)

lemma run_inv: "store_inv st \<Longrightarrow> valid_run cs st \<Longrightarrow> store_inv (run cs st)"
proof (induction cs arbitrary: st)
  case Nil
  then show ?case by simp
next
  case (Cons c cs)
  from Cons.prems have "store_inv (step c st)" "valid_run cs (step c st)"
    by (simp_all add: step_inv)
  from Cons.IH [OF this] show ?case by simp
qed

lemma empty_store_inv: "store_inv (NewStore, empty_heap)"
  by (simp add: store_inv_def wf_heap_def wf_store_def NewStore_def empty_heap_def)

lemma generateID_0: "generateID (0, 0, 0, 0) = ''00000000''"
  by (simp add: generateID_def hex_EncodeToString_def hexdigit_def)

lemma generateID_1: "generateID (0, 0, 0, 1) = ''00000001''"
  by (simp add: generateID_def hex_EncodeToString_def hexdigit_def)

lemma ex_tie_eq:
  "ex_tie =
     (\<lparr>polls = [''00000000'' \<mapsto> 0, ''00000001'' \<mapsto> 1]\<rparr>,
      \<lparr>pollAt = (pollAt empty_heap)
         (0 := \<lparr>Poll.ID = ''00000000'', Question = ''First'', Options = \<lparr>Data = 0, Len = 0\<rparr>,
                CreatedAt = 7, ExpiresAt = 0\<rparr>,
          1 := \<lparr>Poll.ID = ''00000001'', Question = ''Second'', Options = \<lparr>Data = 0, Len = 0\<rparr>,
                CreatedAt = 7, ExpiresAt = 0\<rparr>),
       nextPoll = 2, cellAt = cellAt empty_heap, nextCell = 0\<rparr>)"
  apply (simp add: ex_tie_def new_Poll_def Create_Some Create_key_def NewStore_def generateID_0 generateID_1)
  apply (simp add: empty_heap_def fun_eq_iff)
  done

lemma ex_tie_inv: "store_inv ex_tie"
  unfolding ex_tie_def
  by (rule run_inv [OF empty_store_inv]) (simp add: new_Poll_def Create_Some empty_heap_def)

lemma strict_weak_order_After:
  "strict_weak_order (\<lambda>a b. After (f a) (f b))"
  by (auto simp: strict_weak_order_def After_def)

lemma sorted_wrt_strict:
  assumes "sorted_wrt (\<lambda>a b. f b \<le> f a) xs" "distinct xs" "inj_on f (set xs)"
  shows "sorted_wrt (\<lambda>a b. (f b :: int) < f a) xs"
  using assms
proof (induction xs)
  case Nil
  show ?case by simp
next
  case (Cons x xs)
  have "\<forall>y\<in>set xs. f y < f x"
  proof
    fix y assume y: "y \<in> set xs"
    with Cons.prems have "f y \<le> f x" "f y \<noteq> f x"
      by (auto simp: inj_on_def)
    then show "f y < f x" by simp
  qed
  moreover have "sorted_wrt (\<lambda>a b. f b < f a) xs"
    using Cons by (simp add: inj_on_def)
  ultimately show ?case by simp
qed

lemma sorted_wrt_hd:
  assumes "sorted_wrt (\<lambda>a b. f b \<le> f a) xs" "x \<in> set xs"
  shows "(f x :: int) \<le> f (hd xs)"
  using assms by (cases xs) auto

lemma ex_List:
  "\<exists>h'. List insertion_sort [''p1'', ''p2''] ex_store ex_heap = ([4, 3], h') \<and>
        deref h' 3 = deref ex_heap 0 \<and> deref h' 4 = deref ex_heap 1"
proof -
  let ?kk = "filter (\<lambda>k. polls ex_store k \<noteq> None) [''p1'', ''p2'']"
  have kk: "?kk = [''p1'', ''p2'']" by (simp add: ex_polls)
  from List_result [OF ex_wf_heap ex_wf_store, of insertion_sort "[''p1'', ''p2'']"]
  obtain hl where l: "List insertion_sort [''p1'', ''p2''] ex_store ex_heap =
           (insertion_sort (\<lambda>a b. After (CreatedAt (pollAt hl a)) (CreatedAt (pollAt hl b)))
              [nextPoll ex_heap ..< nextPoll ex_heap + length ?kk], hl)"
    and new: "\<forall>j<length ?kk. deref hl (nextPoll ex_heap + j) =
              deref ex_heap (the (polls ex_store (?kk ! j)))"
    by blast
  have d: "deref hl 3 = deref ex_heap 0" "deref hl 4 = deref ex_heap 1"
    using new [rule_format, of 0] new [rule_format, of 1] by (simp_all add: kk ex_next ex_polls)
  then have c: "CreatedAt (pollAt hl 3) = 10" "CreatedAt (pollAt hl 4) = 20"
    by (simp_all add: deref_eq_iff ex_pollAt ex_pollAt_Suc)
  have "[nextPoll ex_heap ..< nextPoll ex_heap + length ?kk] = [3, 4]"
    unfolding kk ex_next by (simp add: upt_rec)
  with l have "List insertion_sort [''p1'', ''p2''] ex_store ex_heap = ([4, 3], hl)"
    by (simp add: c After_def)
  with d show ?thesis by blast
qed

subsection \<open>The broadcaster\<close>

lemma send_nb_open:
  assumes "\<not> closed (chanAt cs c)"
  shows "send_nb cs c data =
     (None, cs\<lparr>chanAt := (chanAt cs)(c :=
        if length (buf (chanAt cs c)) < cap (chanAt cs c)
        then (chanAt cs c)\<lparr>buf := buf (chanAt cs c) @ [data]\<rparr> else chanAt cs c)\<rparr>)"
  using assms by (simp add: send_nb_def Let_def)

lemma Broadcast_range_props:
  assumes "distinct cl" "\<forall>c\<in>set cl. \<not> closed (chanAt cs c)"
  shows "\<exists>cs'. Broadcast_range cs cl data = (None, cs') \<and> nextChan cs' = nextChan cs \<and>
     (\<forall>c. chanAt cs' c =
        (if c \<in> set cl \<and> length (buf (chanAt cs c)) < cap (chanAt cs c)
         then (chanAt cs c)\<lparr>buf := buf (chanAt cs c) @ [data]\<rparr> else chanAt cs c))"
  using assms
proof (induction cl arbitrary: cs)
  case Nil
  show ?case by simp
next
  case (Cons c cl)
  define cs1 where "cs1 = cs\<lparr>chanAt := (chanAt cs)(c :=
        if length (buf (chanAt cs c)) < cap (chanAt cs c)
        then (chanAt cs c)\<lparr>buf := buf (chanAt cs c) @ [data]\<rparr> else chanAt cs c)\<rparr>"
  have s: "send_nb cs c data = (None, cs1)"
    using Cons.prems(2) by (simp add: send_nb_open cs1_def)
  have other: "\<And>d. d \<noteq> c \<Longrightarrow> chanAt cs1 d = chanAt cs d"
    by (simp add: cs1_def)
  have "\<forall>d\<in>set cl. d \<noteq> c"
    using Cons.prems(1) by auto
  then have "distinct cl" "\<forall>d\<in>set cl. \<not> closed (chanAt cs1 d)"
    using Cons.prems other by simp_all
  from Cons.IH [OF this] obtain cs' where
    r: "Broadcast_range cs1 cl data = (None, cs')" and n: "nextChan cs' = nextChan cs1"
    and a: "\<forall>d. chanAt cs' d =
        (if d \<in> set cl \<and> length (buf (chanAt cs1 d)) < cap (chanAt cs1 d)
         then (chanAt cs1 d)\<lparr>buf := buf (chanAt cs1 d) @ [data]\<rparr> else chanAt cs1 d)"
    by blast
  have "Broadcast_range cs (c # cl) data = (None, cs')"
    using s r by simp
  moreover have "nextChan cs' = nextChan cs"
    using n by (simp add: cs1_def)
  moreover have "\<forall>d. chanAt cs' d =
        (if d \<in> set (c # cl) \<and> length (buf (chanAt cs d)) < cap (chanAt cs d)
         then (chanAt cs d)\<lparr>buf := buf (chanAt cs d) @ [data]\<rparr> else chanAt cs d)"
  proof
    fix d
    show "chanAt cs' d =
        (if d \<in> set (c # cl) \<and> length (buf (chanAt cs d)) < cap (chanAt cs d)
         then (chanAt cs d)\<lparr>buf := buf (chanAt cs d) @ [data]\<rparr> else chanAt cs d)"
    proof (cases "d = c")
      case True
      with Cons.prems(1) have "d \<notin> set cl" by simp
      with a have "chanAt cs' d = chanAt cs1 d" by simp
      with True show ?thesis by (simp add: cs1_def)
    next
      case False
      with a other [OF False] show ?thesis by simp
    qed
  qed
  ultimately show ?case by blast
qed

lemma listeners_Some: "subscribers b key = Some subs \<Longrightarrow> listeners b key = dom subs"
  by (simp add: listeners_def)

lemma listeners_None: "subscribers b key = None \<Longrightarrow> listeners b key = {}"
  by (simp add: listeners_def)

lemma chans_eqI:
  "chanAt cs' = chanAt cs \<Longrightarrow> nextChan cs' = nextChan cs \<Longrightarrow> cs' = (cs :: chans)"
  by simp

lemma Subscribe_eq:
  "Subscribe b cs key =
     (nextChan cs,
      b\<lparr>subscribers := (subscribers b)(key \<mapsto>
           (case subscribers b key of None \<Rightarrow> Map.empty | Some m \<Rightarrow> m)(nextChan cs \<mapsto> True))\<rparr>,
      cs\<lparr>chanAt := (chanAt cs)(nextChan cs := \<lparr>buf = [], cap = 10, closed = False\<rparr>),
         nextChan := Suc (nextChan cs)\<rparr>)"
  by (simp add: Subscribe_def Let_def)

lemma Subscribe_listeners:
  "listeners (fst (snd (Subscribe b cs key))) k =
     (if k = key then insert (nextChan cs) (listeners b key) else listeners b k)"
  by (auto simp: Subscribe_eq listeners_def split: option.splits)

lemma NewBroadcaster_inv: "notifier_inv NewBroadcaster cs"
  by (simp add: notifier_inv_def listeners_def NewBroadcaster_def)

lemma Subscribe_inv:
  assumes "notifier_inv b cs"
  shows "notifier_inv (fst (snd (Subscribe b cs key))) (snd (snd (Subscribe b cs key)))"
proof -
  define b' where "b' = fst (snd (Subscribe b cs key))"
  define cs' where "cs' = snd (snd (Subscribe b cs key))"
  have old: "\<And>k c. c \<in> listeners b k \<Longrightarrow>
      c < nextChan cs \<and> \<not> closed (chanAt cs c) \<and> cap (chanAt cs c) = 10"
    and uniq: "\<And>k1 k2 c. c \<in> listeners b k1 \<Longrightarrow> c \<in> listeners b k2 \<Longrightarrow> k1 = k2"
    using assms unfolding notifier_inv_def by blast+
  have n: "nextChan cs' = Suc (nextChan cs)"
    and new: "chanAt cs' (nextChan cs) = \<lparr>buf = [], cap = 10, closed = False\<rparr>"
    and same: "\<And>c. c \<noteq> nextChan cs \<Longrightarrow> chanAt cs' c = chanAt cs c"
    by (simp_all add: cs'_def Subscribe_eq)
  have L: "\<And>k. listeners b' k =
     (if k = key then insert (nextChan cs) (listeners b key) else listeners b k)"
    unfolding b'_def by (rule Subscribe_listeners)
  have cases: "\<And>k c. c \<in> listeners b' k \<Longrightarrow>
      (c = nextChan cs \<and> k = key) \<or> (c \<noteq> nextChan cs \<and> c \<in> listeners b k)"
    using old unfolding L by (auto split: if_splits)
  have "notifier_inv b' cs'"
    unfolding notifier_inv_def
  proof (rule conjI; intro allI impI)
    fix k c assume "c \<in> listeners b' k"
    from cases [OF this] show "c < nextChan cs' \<and> \<not> closed (chanAt cs' c) \<and> cap (chanAt cs' c) = 10"
    proof
      assume "c = nextChan cs \<and> k = key"
      then show ?thesis by (simp add: n new)
    next
      assume a: "c \<noteq> nextChan cs \<and> c \<in> listeners b k"
      with old [of c k] show ?thesis by (simp add: n same)
    qed
  next
    fix k1 k2 c assume "c \<in> listeners b' k1 \<and> c \<in> listeners b' k2"
    with cases [of c k1] cases [of c k2] uniq [of c k1 k2] show "k1 = k2" by auto
  qed
  then show ?thesis by (simp add: b'_def cs'_def)
qed

lemma ex_notifier_inv: "notifier_inv ex_broadcaster ex_chans"
  by (auto simp: notifier_inv_def listeners_def ex_broadcaster_def ex_chans_def
      split: option.splits if_splits)

lemma ex_listeners: "listeners ex_broadcaster ''k'' = {0, 1}"
  by (auto simp: listeners_def ex_broadcaster_def split: if_splits)

lemma Unsubscribe_open:
  assumes "subscribers b key = Some subs" "\<not> closed (chanAt cs c)"
  shows "Unsubscribe b cs key (Some c) =
     (None, b\<lparr>subscribers := (subscribers b)(key \<mapsto> subs(c := None))\<rparr>,
      cs\<lparr>chanAt := (chanAt cs)(c := (chanAt cs c)\<lparr>closed := True\<rparr>)\<rparr>)"
  using assms by (simp add: Unsubscribe_def close_chan_def)

lemma Unsubscribe_inv:
  assumes "notifier_inv b cs" "c \<in> listeners b key"
  shows "fst (Unsubscribe b cs key (Some c)) = None \<and>
         notifier_inv (fst (snd (Unsubscribe b cs key (Some c))))
           (snd (snd (Unsubscribe b cs key (Some c))))"
proof -
  from assms(2) obtain subs where subs: "subscribers b key = Some subs" "c \<in> dom subs"
    by (auto simp: listeners_def split: option.splits)
  have old: "\<And>k d. d \<in> listeners b k \<Longrightarrow>
      d < nextChan cs \<and> \<not> closed (chanAt cs d) \<and> cap (chanAt cs d) = 10"
    and uniq: "\<And>k1 k2 d. d \<in> listeners b k1 \<Longrightarrow> d \<in> listeners b k2 \<Longrightarrow> k1 = k2"
    using assms(1) unfolding notifier_inv_def by blast+
  define b' where "b' = b\<lparr>subscribers := (subscribers b)(key \<mapsto> subs(c := None))\<rparr>"
  define cs' where "cs' = cs\<lparr>chanAt := (chanAt cs)(c := (chanAt cs c)\<lparr>closed := True\<rparr>)\<rparr>"
  have u: "Unsubscribe b cs key (Some c) = (None, b', cs')"
    unfolding b'_def cs'_def using subs(1) old [OF assms(2)] by (intro Unsubscribe_open) simp_all
  have L: "\<And>k. listeners b' k = (if k = key then listeners b key - {c} else listeners b k)"
    using subs(1) by (auto simp: b'_def listeners_def split: option.splits if_splits)
  have notc: "\<And>k d. d \<in> listeners b' k \<Longrightarrow> d \<noteq> c \<and> d \<in> listeners b k"
    using uniq [OF assms(2)] unfolding L by (auto split: if_splits)
  have "notifier_inv b' cs'"
    unfolding notifier_inv_def
  proof (rule conjI; intro allI impI)
    fix k d assume "d \<in> listeners b' k"
    from notc [OF this] old [of d k]
    show "d < nextChan cs' \<and> \<not> closed (chanAt cs' d) \<and> cap (chanAt cs' d) = 10"
      by (simp add: cs'_def)
  next
    fix k1 k2 d assume "d \<in> listeners b' k1 \<and> d \<in> listeners b' k2"
    with notc [of d k1] notc [of d k2] uniq [of d k1 k2] show "k1 = k2" by blast
  qed
  with u show ?thesis by simp
qed

lemma ex_subscribed_eq:
  "ex_subscribed =
     (0, \<lparr>subscribers = [''k'' \<mapsto> [0 \<mapsto> True]]\<rparr>,
      no_chans\<lparr>chanAt := (chanAt no_chans)(0 := \<lparr>buf = [], cap = 10, closed = False\<rparr>),
               nextChan := Suc 0\<rparr>)"
  by (simp add: ex_subscribed_def Subscribe_eq NewBroadcaster_def) (simp add: no_chans_def)

lemma ex_unsubscribed_eq:
  "ex_unsubscribed =
     (None, \<lparr>subscribers = [''k'' \<mapsto> Map.empty]\<rparr>,
      no_chans\<lparr>chanAt := (chanAt no_chans)(0 := \<lparr>buf = [], cap = 10, closed = True\<rparr>),
               nextChan := Suc 0\<rparr>)"
  by (simp add: ex_unsubscribed_def ex_subscribed_eq Unsubscribe_def close_chan_def)

subsection \<open>Rounding to \<^verbatim>\<open>float64\<close>\<close>

lemma round_even_error: "\<bar>of_int (round_even y) - y\<bar> \<le> 1 / 2"
proof -
  have "of_int \<lfloor>y\<rfloor> \<le> y" "y < of_int \<lfloor>y\<rfloor> + 1" by linarith+
  then show ?thesis
    by (auto simp: round_even_def Let_def)
qed

lemma round_even_of_int: "round_even (of_int n) = n"
  by (simp add: round_even_def)

lemma float64_zero: "float64 0 = 0"
  by (simp add: float64_def)

lemma float64_error: "\<bar>float64 x - x\<bar> \<le> \<bar>x\<bar> / 2 ^ 53"
proof (cases "x = 0")
  case True
  then show ?thesis by (simp add: float64_def)
next
  case False
  define e where "e = \<lfloor>log 2 \<bar>x\<bar>\<rfloor>"
  define ulp :: real where "ulp = 2 powr (of_int e - 52)"
  have pos: "0 < ulp" by (simp add: ulp_def)
  have f: "float64 x = of_int (round_even (x / ulp)) * ulp"
    using False by (simp add: float64_def Let_def e_def ulp_def)
  have "float64 x - x = (of_int (round_even (x / ulp)) - x / ulp) * ulp"
    using pos by (simp add: f left_diff_distrib)
  then have "\<bar>float64 x - x\<bar> = \<bar>of_int (round_even (x / ulp)) - x / ulp\<bar> * ulp"
    using pos by (simp add: abs_mult)
  also have "\<dots> \<le> 1 / 2 * ulp"
    using round_even_error [of "x / ulp"] pos by (intro mult_right_mono) simp_all
  also have "\<dots> = 2 powr (of_int e) / 2 ^ 53"
    by (simp add: ulp_def powr_diff)
  also have "2 powr (of_int e) \<le> \<bar>x\<bar>"
  proof -
    have "of_int e \<le> log 2 \<bar>x\<bar>" by (simp add: e_def)
    then show ?thesis using False by (simp add: le_log_iff)
  qed
  finally show ?thesis by (simp add: divide_right_mono)
qed

lemma float64_exact:
  assumes "\<bar>m\<bar> < 2 ^ 53"
  shows "float64 (of_int m * 2 powr (of_int k)) = of_int m * 2 powr (of_int k)"
proof (cases "m = 0")
  case True
  then show ?thesis by (simp add: float64_def)
next
  case False
  define x :: real where "x = of_int m * 2 powr (of_int k)"
  define e where "e = \<lfloor>log 2 \<bar>x\<bar>\<rfloor>"
  have x0: "x \<noteq> 0" using False by (simp add: x_def)
  have "\<bar>x\<bar> = of_int \<bar>m\<bar> * 2 powr (of_int k)"
    by (simp add: x_def abs_mult)
  also have "\<dots> < 2 ^ 53 * 2 powr (of_int k)"
  proof -
    have "(of_int \<bar>m\<bar> :: real) < of_int (2 ^ 53)" using assms by (subst of_int_less_iff)
    then show ?thesis by simp
  qed
  also have "\<dots> = 2 powr (of_int (k + 53))"
    by (simp add: powr_add powr_realpow [symmetric])
  finally have "log 2 \<bar>x\<bar> < of_int (k + 53)"
    using x0 by (subst log_less_iff) simp_all
  then have "e < k + 53" unfolding e_def by linarith
  define j where "j = nat (k - e + 52)"
  have j: "k = e - 52 + int j"
    using \<open>e < k + 53\<close> by (simp add: j_def)
  have "x / 2 powr (of_int e - 52) = of_int m * 2 powr (of_int k - (of_int e - 52))"
    by (simp add: x_def powr_diff)
  also have "of_int k - (of_int e - 52) = real j"
    by (simp add: j)
  finally have "x / 2 powr (of_int e - 52) = of_int (m * 2 ^ j)"
    by (simp add: powr_realpow)
  then have "round_even (x / 2 powr (of_int e - 52)) = m * 2 ^ j"
    by (simp only: round_even_of_int)
  then have "float64 x = of_int (m * 2 ^ j) * 2 powr (of_int e - 52)"
    using x0 by (simp add: float64_def Let_def e_def)
  also have "\<dots> = of_int m * (2 powr (real j) * 2 powr (of_int e - 52))"
    by (simp add: powr_realpow)
  also have "2 powr (real j) * 2 powr (of_int e - 52) = 2 powr (of_int k)"
    by (simp add: powr_add [symmetric] j add.commute)
  finally show ?thesis by (simp add: x_def)
qed

lemma float64_of_int_small: "\<bar>m\<bar> < 2 ^ 53 \<Longrightarrow> float64 (of_int m) = of_int m"
  using float64_exact [of m 0] by simp

lemma float64_25: "float64 25 = 25"
  using float64_exact [of 25 0] by simp

lemma float64_quarter: "float64 (1 / 4) = 1 / 4"
  using float64_exact [of 1 "-2"] by (simp add: powr_minus inverse_eq_divide)

text \<open>Relative errors, and how they combine.\<close>

lemma unit_roundoff_bounds: "0 < unit_roundoff" "unit_roundoff < 1"
  by (simp_all add: unit_roundoff_def)

lemma float64_roundoff: "\<bar>float64 x - x\<bar> \<le> unit_roundoff * \<bar>x\<bar>"
  using float64_error [of x] by (simp add: unit_roundoff_def)

lemma rel_err_float64: "rel_err x (float64 x) unit_roundoff"
  using float64_roundoff [of x] by (simp add: rel_err_def)

lemma rel_err_round:
  assumes "rel_err x a \<alpha>" "0 \<le> \<alpha>"
  shows "rel_err x (float64 a) (\<alpha> + unit_roundoff + \<alpha> * unit_roundoff)"
proof -
  define u where "u = unit_roundoff"
  have u: "0 \<le> u" using unit_roundoff_bounds by (simp add: u_def)
  have a: "\<bar>a - x\<bar> \<le> \<alpha> * \<bar>x\<bar>" using assms(1) by (simp add: rel_err_def)
  then have "\<bar>a\<bar> \<le> \<bar>x\<bar> + \<alpha> * \<bar>x\<bar>" by linarith
  then have "u * \<bar>a\<bar> \<le> u * (\<bar>x\<bar> + \<alpha> * \<bar>x\<bar>)"
    using u by (intro mult_left_mono) simp_all
  moreover have "\<bar>float64 a - a\<bar> \<le> u * \<bar>a\<bar>"
    unfolding u_def by (rule float64_roundoff)
  ultimately have "\<bar>float64 a - x\<bar> \<le> u * (\<bar>x\<bar> + \<alpha> * \<bar>x\<bar>) + \<alpha> * \<bar>x\<bar>"
    using a by linarith
  also have "\<dots> = (\<alpha> + u + \<alpha> * u) * \<bar>x\<bar>"
    by (simp add: algebra_simps)
  finally show ?thesis by (simp add: rel_err_def u_def)
qed

lemma rel_err_div:
  assumes "rel_err x a \<alpha>" "rel_err y b \<beta>" "0 \<le> \<alpha>" "0 \<le> \<beta>" "\<beta> < 1" "y \<noteq> 0"
  shows "rel_err (x / y) (a / b) ((\<alpha> + \<beta>) / (1 - \<beta>))"
proof -
  have a: "\<bar>a - x\<bar> \<le> \<alpha> * \<bar>x\<bar>" and b: "\<bar>b - y\<bar> \<le> \<beta> * \<bar>y\<bar>"
    using assms(1,2) by (simp_all add: rel_err_def)
  have lb: "(1 - \<beta>) * \<bar>y\<bar> \<le> \<bar>b\<bar>"
  proof -
    have "\<bar>y\<bar> - \<bar>b\<bar> \<le> \<bar>b - y\<bar>" by linarith
    with b show ?thesis by (simp add: algebra_simps)
  qed
  have ypos: "0 < \<bar>y\<bar>" using assms(6) by simp
  have "0 < (1 - \<beta>) * \<bar>y\<bar>" using ypos assms(5) by simp
  with lb have bpos: "0 < \<bar>b\<bar>" by linarith
  then have b0: "b \<noteq> 0" by auto
  have "a / b - x / y = ((a - x) * y - x * (b - y)) / (b * y)"
    using b0 assms(6) by (simp add: field_simps)
  then have eq: "\<bar>a / b - x / y\<bar> = \<bar>(a - x) * y - x * (b - y)\<bar> / (\<bar>b\<bar> * \<bar>y\<bar>)"
    by (simp add: abs_mult)
  have "\<bar>(a - x) * y - x * (b - y)\<bar> \<le> \<bar>a - x\<bar> * \<bar>y\<bar> + \<bar>x\<bar> * \<bar>b - y\<bar>"
    by (metis abs_mult abs_triangle_ineq4)
  also have "\<dots> \<le> \<alpha> * \<bar>x\<bar> * \<bar>y\<bar> + \<bar>x\<bar> * (\<beta> * \<bar>y\<bar>)"
    using a b by (intro add_mono mult_right_mono mult_left_mono) simp_all
  also have "\<dots> = (\<alpha> + \<beta>) * \<bar>x\<bar> * \<bar>y\<bar>"
    by (simp add: algebra_simps)
  finally have "\<bar>(a - x) * y - x * (b - y)\<bar> / (\<bar>b\<bar> * \<bar>y\<bar>)
      \<le> (\<alpha> + \<beta>) * \<bar>x\<bar> * \<bar>y\<bar> / (\<bar>b\<bar> * \<bar>y\<bar>)"
    using bpos ypos by (intro divide_right_mono) simp_all
  with eq have "\<bar>a / b - x / y\<bar> \<le> (\<alpha> + \<beta>) * \<bar>x\<bar> * \<bar>y\<bar> / (\<bar>b\<bar> * \<bar>y\<bar>)"
    by simp
  also have "(\<alpha> + \<beta>) * \<bar>x\<bar> * \<bar>y\<bar> / (\<bar>b\<bar> * \<bar>y\<bar>) = (\<alpha> + \<beta>) * \<bar>x\<bar> / \<bar>b\<bar>"
    using ypos by simp
  also have "\<dots> \<le> (\<alpha> + \<beta>) * \<bar>x\<bar> / ((1 - \<beta>) * \<bar>y\<bar>)"
    using lb ypos bpos assms(3,4,5)
    by (intro divide_left_mono mult_pos_pos mult_nonneg_nonneg) simp_all
  also have "\<dots> = (\<alpha> + \<beta>) / (1 - \<beta>) * \<bar>x / y\<bar>"
    by simp
  finally show ?thesis by (simp add: rel_err_def)
qed

lemma rel_err_scale:
  assumes "rel_err x a \<alpha>"
  shows "rel_err (x * c) (a * c) \<alpha>"
proof -
  have "\<bar>a * c - x * c\<bar> = \<bar>a - x\<bar> * \<bar>c\<bar>"
    by (simp add: abs_mult [symmetric] left_diff_distrib)
  also have "\<dots> \<le> \<alpha> * \<bar>x\<bar> * \<bar>c\<bar>"
    using assms by (intro mult_right_mono) (simp_all add: rel_err_def)
  finally show ?thesis
    by (simp add: rel_err_def abs_mult ac_simps)
qed

lemma rel_err_mono: "rel_err x a \<alpha> \<Longrightarrow> \<alpha> \<le> \<beta> \<Longrightarrow> rel_err x a \<beta>"
  unfolding rel_err_def by (meson abs_ge_zero mult_right_mono order_trans)

lemma roundoff_chain:
  "(2 * unit_roundoff / (1 - unit_roundoff) + unit_roundoff
      + 2 * unit_roundoff / (1 - unit_roundoff) * unit_roundoff)
     + unit_roundoff
     + (2 * unit_roundoff / (1 - unit_roundoff) + unit_roundoff
      + 2 * unit_roundoff / (1 - unit_roundoff) * unit_roundoff) * unit_roundoff
   \<le> 5 * unit_roundoff"
  by (simp add: unit_roundoff_def)

lemma float64_nonzero: "x \<noteq> 0 \<Longrightarrow> float64 x \<noteq> 0"
proof
  assume x: "x \<noteq> 0" and "float64 x = 0"
  with float64_roundoff [of x] have "\<bar>x\<bar> \<le> unit_roundoff * \<bar>x\<bar>" by simp
  moreover have "unit_roundoff * \<bar>x\<bar> < 1 * \<bar>x\<bar>"
    using x unit_roundoff_bounds by (intro mult_strict_right_mono) simp_all
  ultimately show False by simp
qed

text \<open>The percentage as \<^verbatim>\<open>VotePercentage\<close> computes it, against the exact quotient.\<close>

lemma percentage_error:
  assumes "t \<noteq> 0"
  shows "rel_err (v / t * 100) (float64_mul (float64_div (float64 v) (float64 t)) 100)
           (5 * unit_roundoff)"
proof -
  let ?u = unit_roundoff
  let ?g1 = "(?u + ?u) / (1 - ?u)"
  let ?g2 = "?g1 + ?u + ?g1 * ?u"
  let ?g3 = "?g2 + ?u + ?g2 * ?u"
  have u: "0 \<le> ?u" "?u < 1" using unit_roundoff_bounds by simp_all
  have g1: "0 \<le> ?g1" using u by simp
  have g2: "0 \<le> ?g2" using u g1 by simp
  have "rel_err (v / t) (float64 v / float64 t) ?g1"
    by (rule rel_err_div [OF rel_err_float64 rel_err_float64 u(1) u(1) u(2) assms])
  from rel_err_round [OF this g1]
  have "rel_err (v / t) (float64_div (float64 v) (float64 t)) ?g2"
    by (simp add: float64_div_def)
  from rel_err_round [OF rel_err_scale [OF this, of 100] g2]
  have "rel_err (v / t * 100) (float64_mul (float64_div (float64 v) (float64 t)) 100) ?g3"
    by (simp add: float64_mul_def)
  moreover have "?g3 \<le> 5 * ?u"
    using roundoff_chain by simp
  ultimately show ?thesis by (rule rel_err_mono)
qed

lemma TotalVotes_loop_sum: "TotalVotes_loop opts acc = acc + sum_list (map Votes opts)"
  by (induction opts arbitrary: acc) (simp_all add: add.assoc)

lemma word_of_int_sum_sint:
  "(word_of_int (\<Sum>opt\<leftarrow>opts. sint (Votes opt)) :: 64 word) = sum_list (map Votes opts)"
  by (induction opts) simp_all

lemma sint_word_of_int_small:
  assumes "0 \<le> T" "T < 2 ^ 63"
  shows "sint (word_of_int T :: 64 word) = T"
proof -
  have "sint (word_of_int T :: 64 word) = signed_take_bit 63 T"
    by (simp only: sint_sbintrunc') simp
  also have "\<dots> = T"
    using assms by (simp add: signed_take_bit_int_eq_self)
  finally show ?thesis .
qed

lemma TotalVotes_sint:
  assumes "0 \<le> (\<Sum>opt\<leftarrow>options_of h p. sint (Votes opt))"
    "(\<Sum>opt\<leftarrow>options_of h p. sint (Votes opt)) < 2 ^ 63"
  shows "sint (TotalVotes h p) = (\<Sum>opt\<leftarrow>options_of h p. sint (Votes opt))"
  using sint_word_of_int_small [OF assms]
  by (simp add: TotalVotes_def TotalVotes_loop_sum options_of_def word_of_int_sum_sint)

lemma VotePercentage_loop_distinct:
  assumes "distinct (map Option.ID opts)" "opt \<in> set opts"
  shows "VotePercentage_loop opts (Option.ID opt) tot =
         float64_mul (float64_div (float64_of_int (Votes opt)) (float64_of_int tot)) 100"
  using assms by (induction opts) (auto simp: image_iff)

lemma real_sum_list_sint:
  "(\<Sum>opt\<leftarrow>opts. real_of_int (sint (Votes opt))) = real_of_int (\<Sum>opt\<leftarrow>opts. sint (Votes opt))"
  by (induction opts) (simp_all del: of_int_sint)

lemma sum_list_abs_diff:
  fixes f g :: "'a \<Rightarrow> real"
  assumes "\<And>x. x \<in> set xs \<Longrightarrow> \<bar>f x - g x\<bar> \<le> c * g x"
  shows "\<bar>(\<Sum>x\<leftarrow>xs. f x) - (\<Sum>x\<leftarrow>xs. g x)\<bar> \<le> c * (\<Sum>x\<leftarrow>xs. g x)"
  using assms
proof (induction xs)
  case Nil
  show ?case by simp
next
  case (Cons x xs)
  have "\<bar>f x - g x\<bar> \<le> c * g x" by (rule Cons.prems) simp
  moreover have "\<bar>(\<Sum>x\<leftarrow>xs. f x) - (\<Sum>x\<leftarrow>xs. g x)\<bar> \<le> c * (\<Sum>x\<leftarrow>xs. g x)"
    by (rule Cons.IH) (simp add: Cons.prems)
  ultimately show ?case by (simp add: algebra_simps)
qed

subsection \<open>Concurrent calls\<close>

lemma Vote_split:
  "Vote now s h pollID optionID =
     (case Vote_read now s h pollID optionID of
        Inl e \<Rightarrow> (Inl e, s, h)
      | Inr (poll, a, v) \<Rightarrow> let (r, h') = Vote_write h poll a v in (Inr r, s, h'))"
  by (simp add: Vote_def Vote_read_def Vote_write_def Let_def split: option.splits)

lemma Vote_loop_first:
  assumes "i < n" "Option.ID (cellAt h (a + i)) = oid" "\<forall>j<i. Option.ID (cellAt h (a + j)) \<noteq> oid"
  shows "Vote_loop h oid a n = Some (a + i)"
proof -
  have "Vote_loop h oid a n \<noteq> None"
    using assms(1,2) by (auto simp: Vote_loop_None)
  then obtain b where b: "Vote_loop h oid a n = Some b" by blast
  from Vote_loop_Some [OF this] obtain i' where i': "i' < n" "b = a + i'"
    "Option.ID (cellAt h (a + i')) = oid" "\<forall>j<i'. Option.ID (cellAt h (a + j)) \<noteq> oid"
    by blast
  have "\<not> i' < i" using assms(3) i'(3) by blast
  moreover have "\<not> i < i'" using assms(2) i'(4) by blast
  ultimately have "i' = i" by simp
  with b i'(2) show ?thesis by simp
qed

lemma finished_cases: "finished x \<longleftrightarrow> (\<exists>res. x = Stored res \<or> x = Returned res)"
  by (cases x) simp_all

lemma quiet_cases: "quiet x \<longleftrightarrow> x = Idle \<or> (\<exists>res. x = Returned res)"
  by (cases x) simp_all

lemma stored_count_init: "stored_count N (\<lambda>_. Idle) = 0"
  by (simp add: stored_count_def)

lemma init_vote_inv:
  assumes "wf_heap h0" "p < nextPoll h0" "i < length (options_of h0 p)"
  shows "vote_inv N s h0 p i (init_config s h0)"
  using assms
  by (simp add: vote_inv_def init_config_def stored_count_init list_update_same_conv)

text \<open>The number of the calls that have stored, as one call changes its state.\<close>

lemma stored_count_same:
  assumes "finished x = finished (cs t)"
  shows "stored_count N (cs(t := x)) = stored_count N cs"
proof -
  have "{u. u < N \<and> finished ((cs(t := x)) u)} = {u. u < N \<and> finished (cs u)}"
    using assms by auto
  then show ?thesis by (simp add: stored_count_def)
qed

lemma stored_count_grows:
  assumes "t < N" "\<not> finished (cs t)" "finished x"
  shows "stored_count N (cs(t := x)) = Suc (stored_count N cs)"
proof -
  have "{u. u < N \<and> finished ((cs(t := x)) u)} = insert t {u. u < N \<and> finished (cs u)}"
    using assms(1,3) by auto
  moreover have "t \<notin> {u. u < N \<and> finished (cs u)}" using assms(2) by simp
  moreover have "finite {u. u < N \<and> finished (cs u)}"
    by (rule finite_subset [of _ "{..<N}"]) (auto intro: finite_lessThan)
  ultimately show ?thesis by (simp add: stored_count_def)
qed

lemma stored_count_all:
  assumes "\<forall>t<N. finished (cs t)"
  shows "stored_count N cs = N"
proof -
  have "{u. u < N \<and> finished (cs u)} = {..<N}" using assms by auto
  then show ?thesis by (simp add: stored_count_def)
qed

lemma vote_invI:
  assumes "store c = s" "wf_heap (mem c)" "p < nextPoll (mem c)" "pollAt (mem c) p = pollAt h0 p"
    and "options_of (mem c) p =
       (options_of h0 p)[i := (options_of h0 p ! i)
          \<lparr>Votes := Votes (options_of h0 p ! i) + of_nat (stored_count N (calls c))\<rparr>]"
    and "\<And>t. N \<le> t \<Longrightarrow> calls c t = Idle"
    and "case mu c of
        None \<Rightarrow> \<forall>t. quiet (calls c t)
      | Some t \<Rightarrow> \<not> quiet (calls c t) \<and> (\<forall>t'. t' \<noteq> t \<longrightarrow> quiet (calls c t'))"
    and "\<And>t poll a v. calls c t = Loaded poll a v \<Longrightarrow>
        poll = p \<and> a = Data (Options (pollAt h0 p)) + i \<and> v = Votes (options_of (mem c) p ! i)"
    and "\<And>t res. calls c t = Stored res \<or> calls c t = Returned res \<Longrightarrow> \<exists>r. res = Inr r"
  shows "vote_inv N s h0 p i c"
  unfolding vote_inv_def using assms by blast

lemma call_step_inv:
  assumes inv: "vote_inv N s h0 p i c" and t: "t < N"
    and p: "polls s pollID = Some p"
    and i: "i < length (options_of h0 p)" "Option.ID (options_of h0 p ! i) = optionID"
      "\<forall>j<i. Option.ID (options_of h0 p ! j) \<noteq> optionID"
    and live: "\<forall>t<N. \<not> IsExpired (now t) h0 p"
  shows "vote_inv N s h0 p i (call_step now pollID optionID t c)"
proof -
  let ?sl = "Options (pollAt h0 p)"
  let ?k = "stored_count N (calls c)"
  let ?old = "options_of h0 p"
  from inv have st: "store c = s" and wf: "wf_heap (mem c)" and pn: "p < nextPoll (mem c)"
    and pa: "pollAt (mem c) p = pollAt h0 p"
    and opts: "options_of (mem c) p = ?old[i := (?old ! i)\<lparr>Votes := Votes (?old ! i) + of_nat ?k\<rparr>]"
    and out: "\<And>u. N \<le> u \<Longrightarrow> calls c u = Idle"
    and lock: "case mu c of None \<Rightarrow> \<forall>u. quiet (calls c u)
               | Some u \<Rightarrow> \<not> quiet (calls c u) \<and> (\<forall>u'. u' \<noteq> u \<longrightarrow> quiet (calls c u'))"
    and loaded: "\<And>u poll a v. calls c u = Loaded poll a v \<Longrightarrow>
        poll = p \<and> a = Data ?sl + i \<and> v = Votes (options_of (mem c) p ! i)"
    and res: "\<And>u res. calls c u = Stored res \<or> calls c u = Returned res \<Longrightarrow> \<exists>r. res = Inr r"
    unfolding vote_inv_def by blast+
  have holder: "mu c = Some t \<and> (\<forall>u. u \<noteq> t \<longrightarrow> quiet (calls c u))" if "\<not> quiet (calls c t)"
  proof (cases "mu c")
    case None
    with lock that show ?thesis by simp
  next
    case (Some u)
    with lock that have "u = t" by auto
    with Some lock show ?thesis by simp
  qed
  show ?thesis
  proof (cases "calls c t")
    case Idle
    show ?thesis
    proof (cases "mu c")
      case None
      with lock have q: "\<And>u. quiet (calls c u)" by simp
      define c' where "c' = c\<lparr>mu := Some t, calls := (calls c)(t := Holding)\<rparr>"
      have step: "call_step now pollID optionID t c = c'"
        using Idle None by (simp add: call_step_def c'_def)
      have k: "stored_count N (calls c') = ?k"
        unfolding c'_def by (simp add: stored_count_same Idle)
      have "vote_inv N s h0 p i c'"
      proof (rule vote_invI)
        show "store c' = s" "wf_heap (mem c')" "p < nextPoll (mem c')" "pollAt (mem c') p = pollAt h0 p"
          using st wf pn pa by (simp_all add: c'_def)
        show "options_of (mem c') p =
           ?old[i := (?old ! i)\<lparr>Votes := Votes (?old ! i) + of_nat (stored_count N (calls c'))\<rparr>]"
          unfolding k using opts by (simp add: c'_def)
        show "calls c' u = Idle" if "N \<le> u" for u
          using out [OF that] that t by (simp add: c'_def)
        show "case mu c' of None \<Rightarrow> \<forall>t. quiet (calls c' t)
              | Some t \<Rightarrow> \<not> quiet (calls c' t) \<and> (\<forall>t'. t' \<noteq> t \<longrightarrow> quiet (calls c' t'))"
          using q by (simp add: c'_def)
        show "poll = p \<and> a = Data ?sl + i \<and> v = Votes (options_of (mem c') p ! i)"
          if "calls c' u = Loaded poll a v" for u poll a v
          using that loaded [of u poll a v] by (auto simp: c'_def split: if_splits)
        show "\<exists>r. res' = Inr r" if "calls c' u = Stored res' \<or> calls c' u = Returned res'" for u res'
          using that res [of u res'] by (auto simp: c'_def split: if_splits)
      qed
      with step show ?thesis by simp
    next
      case (Some u)
      with Idle inv show ?thesis by (simp add: call_step_def)
    qed
  next
    case Holding
    then have mu: "mu c = Some t" and others: "\<And>u. u \<noteq> t \<Longrightarrow> quiet (calls c u)"
      using holder by simp_all
    have iL0: "i < Len ?sl" using i(1) by (simp add: options_of_def)
    have nth: "Option.ID (cellAt (mem c) (Data ?sl + j)) = Option.ID (?old ! j)" if j: "j < Len ?sl" for j
    proof -
      have jl: "j < length ?old" using j by (simp add: options_of_def)
      have "cellAt (mem c) (Data ?sl + j) = options_of (mem c) p ! j"
        using j by (simp add: options_of_def elems_nth pa)
      also have "Option.ID \<dots> = Option.ID (?old ! j)"
        unfolding opts using jl by (cases "j = i") simp_all
      finally show ?thesis .
    qed
    have loop: "Vote_loop (mem c) optionID (Data ?sl) (Len ?sl) = Some (Data ?sl + i)"
    proof (rule Vote_loop_first [OF iL0])
      show "Option.ID (cellAt (mem c) (Data ?sl + i)) = optionID"
        unfolding nth [OF iL0] by (rule i(2))
      show "\<forall>j<i. Option.ID (cellAt (mem c) (Data ?sl + j)) \<noteq> optionID"
      proof (intro allI impI)
        fix j assume ji: "j < i"
        then have "j < Len ?sl" using iL0 by simp
        from nth [OF this] i(3) ji show "Option.ID (cellAt (mem c) (Data ?sl + j)) \<noteq> optionID"
          by simp
      qed
    qed
    have cell: "cellAt (mem c) (Data ?sl + i) = options_of (mem c) p ! i"
      using iL0 by (simp add: options_of_def elems_nth pa)
    have "IsExpired (now t) (mem c) p = IsExpired (now t) h0 p"
      by (simp add: IsExpired_def pa)
    with live t have "\<not> IsExpired (now t) (mem c) p"
      by blast
    then have rd: "Vote_read (now t) (store c) (mem c) pollID optionID =
        Inr (p, Data ?sl + i, Votes (options_of (mem c) p ! i))"
      using p by (simp add: Vote_read_def st pa loop cell)
    define c' where
      "c' = c\<lparr>calls := (calls c)(t := Loaded p (Data ?sl + i) (Votes (options_of (mem c) p ! i)))\<rparr>"
    have step: "call_step now pollID optionID t c = c'"
      using Holding rd by (simp add: call_step_def c'_def)
    have k: "stored_count N (calls c') = ?k"
      unfolding c'_def by (simp add: stored_count_same Holding)
    have "vote_inv N s h0 p i c'"
    proof (rule vote_invI)
      show "store c' = s" "wf_heap (mem c')" "p < nextPoll (mem c')" "pollAt (mem c') p = pollAt h0 p"
        using st wf pn pa by (simp_all add: c'_def)
      show "options_of (mem c') p =
         ?old[i := (?old ! i)\<lparr>Votes := Votes (?old ! i) + of_nat (stored_count N (calls c'))\<rparr>]"
        unfolding k using opts by (simp add: c'_def)
      show "calls c' u = Idle" if "N \<le> u" for u
        using out [OF that] that t by (simp add: c'_def)
      show "case mu c' of None \<Rightarrow> \<forall>t. quiet (calls c' t)
            | Some t \<Rightarrow> \<not> quiet (calls c' t) \<and> (\<forall>t'. t' \<noteq> t \<longrightarrow> quiet (calls c' t'))"
        using mu others by (simp add: c'_def)
      show "poll = p \<and> a = Data ?sl + i \<and> v = Votes (options_of (mem c') p ! i)"
        if "calls c' u = Loaded poll a v" for u poll a v
        using that loaded [of u poll a v] by (auto simp: c'_def split: if_splits)
      show "\<exists>r. res' = Inr r" if "calls c' u = Stored res' \<or> calls c' u = Returned res'" for u res'
        using that res [of u res'] by (auto simp: c'_def split: if_splits)
    qed
    with step show ?thesis by simp
  next
    case (Loaded poll a v)
    then have mu: "mu c = Some t" and others: "\<And>u. u \<noteq> t \<Longrightarrow> quiet (calls c u)"
      using holder by simp_all
    from loaded [OF Loaded] have pav: "poll = p" "a = Data ?sl + i" "v = Votes (options_of (mem c) p ! i)"
      by blast+
    define h1 where "h1 = (mem c)\<lparr>cellAt := (cellAt (mem c))(a := (cellAt (mem c) a)\<lparr>Votes := v + 1\<rparr>)\<rparr>"
    define h' where "h' = snd (copyPoll h1 p)"
    have wf1: "wf_heap h1" and p1: "p < nextPoll h1" and pa1: "pollAt h1 = pollAt (mem c)"
      using wf pn by (simp_all add: h1_def)
    have iL: "i < Len (Options (pollAt (mem c) p))" using i(1) by (simp add: pa options_of_def)
    have cell: "cellAt (mem c) a = options_of (mem c) p ! i"
      using iL by (simp add: pav(2) options_of_def elems_nth pa)
    have "options_of h1 p = (options_of (mem c) p)[i := (cellAt (mem c) a)\<lparr>Votes := v + 1\<rparr>]"
      unfolding h1_def pav(2) pa [symmetric]
      by (rule options_of_cell_update [OF iL])
    then have o1: "options_of h1 p =
        (options_of (mem c) p)[i := (options_of (mem c) p ! i)\<lparr>Votes := v + 1\<rparr>]"
      by (simp only: cell)
    have o': "options_of h' p = options_of h1 p"
      unfolding h'_def by (rule copyPoll_options_old [OF wf1 p1])
    define c' where "c' = c\<lparr>mem := h', calls := (calls c)(t := Stored (Inr (nextPoll (mem c))))\<rparr>"
    have step: "call_step now pollID optionID t c = c'"
      using Loaded
      by (simp add: call_step_def Vote_write_def case_prod_beta pav(1) h1_def [symmetric]
          h'_def copyPoll_fst c'_def)
    have k: "stored_count N (calls c') = Suc ?k"
      unfolding c'_def using stored_count_grows [OF t, of "calls c" "Stored (Inr (nextPoll (mem c)))"]
      by (simp add: Loaded)
    have new: "options_of h' p = ?old[i := (?old ! i)\<lparr>Votes := Votes (?old ! i) + of_nat (Suc ?k)\<rparr>]"
      using i(1) by (simp add: o' o1 pav(3) opts add.assoc add.commute [of 1])
    have "vote_inv N s h0 p i c'"
    proof (rule vote_invI)
      show "store c' = s" using st by (simp add: c'_def)
      show "wf_heap (mem c')"
        unfolding c'_def h'_def using copyPoll_wf [OF wf1 p1] by simp
      show "p < nextPoll (mem c')" using p1 by (simp add: c'_def h'_def copyPoll_nextPoll)
      show "pollAt (mem c') p = pollAt h0 p"
        using p1 by (simp add: c'_def h'_def copyPoll_pollAt_old pa1 pa)
      show "options_of (mem c') p =
         ?old[i := (?old ! i)\<lparr>Votes := Votes (?old ! i) + of_nat (stored_count N (calls c'))\<rparr>]"
        unfolding k using new by (simp add: c'_def)
      show "calls c' u = Idle" if "N \<le> u" for u
        using out [OF that] that t by (simp add: c'_def)
      show "case mu c' of None \<Rightarrow> \<forall>t. quiet (calls c' t)
            | Some t \<Rightarrow> \<not> quiet (calls c' t) \<and> (\<forall>t'. t' \<noteq> t \<longrightarrow> quiet (calls c' t'))"
        using mu others by (simp add: c'_def)
      show "poll' = p \<and> a' = Data ?sl + i \<and> v' = Votes (options_of (mem c') p ! i)"
        if "calls c' u = Loaded poll' a' v'" for u poll' a' v'
      proof -
        from that have "u \<noteq> t" "calls c u = Loaded poll' a' v'"
          by (auto simp: c'_def split: if_splits)
        with others [of u] show ?thesis by simp
      qed
      show "\<exists>r. res' = Inr r" if "calls c' u = Stored res' \<or> calls c' u = Returned res'" for u res'
        using that res [of u res'] by (auto simp: c'_def split: if_splits)
    qed
    with step show ?thesis by simp
  next
    case (Stored r)
    then have mu: "mu c = Some t" and others: "\<And>u. u \<noteq> t \<Longrightarrow> quiet (calls c u)"
      using holder by simp_all
    define c' where "c' = c\<lparr>mu := None, calls := (calls c)(t := Returned r)\<rparr>"
    have step: "call_step now pollID optionID t c = c'"
      using Stored by (simp add: call_step_def c'_def)
    have k: "stored_count N (calls c') = ?k"
      unfolding c'_def by (simp add: stored_count_same Stored)
    have "vote_inv N s h0 p i c'"
    proof (rule vote_invI)
      show "store c' = s" "wf_heap (mem c')" "p < nextPoll (mem c')" "pollAt (mem c') p = pollAt h0 p"
        using st wf pn pa by (simp_all add: c'_def)
      show "options_of (mem c') p =
         ?old[i := (?old ! i)\<lparr>Votes := Votes (?old ! i) + of_nat (stored_count N (calls c'))\<rparr>]"
        unfolding k using opts by (simp add: c'_def)
      show "calls c' u = Idle" if "N \<le> u" for u
        using out [OF that] that t by (simp add: c'_def)
      show "case mu c' of None \<Rightarrow> \<forall>t. quiet (calls c' t)
            | Some t \<Rightarrow> \<not> quiet (calls c' t) \<and> (\<forall>t'. t' \<noteq> t \<longrightarrow> quiet (calls c' t'))"
        using others by (simp add: c'_def)
      show "poll = p \<and> a = Data ?sl + i \<and> v = Votes (options_of (mem c') p ! i)"
        if "calls c' u = Loaded poll a v" for u poll a v
        using that loaded [of u poll a v] by (auto simp: c'_def split: if_splits)
      show "\<exists>r'. res' = Inr r'" if "calls c' u = Stored res' \<or> calls c' u = Returned res'" for u res'
        using that res [of u res'] res [of t r] Stored by (auto simp: c'_def split: if_splits)
    qed
    with step show ?thesis by simp
  next
    case (Returned r)
    with inv show ?thesis by (simp add: call_step_def)
  qed
qed

lemma exec_inv:
  assumes "vote_inv N s h0 p i c" "set sched \<subseteq> {..<N}"
    and "polls s pollID = Some p"
    and "i < length (options_of h0 p)" "Option.ID (options_of h0 p ! i) = optionID"
      "\<forall>j<i. Option.ID (options_of h0 p ! j) \<noteq> optionID"
    and "\<forall>t<N. \<not> IsExpired (now t) h0 p"
  shows "vote_inv N s h0 p i (exec now pollID optionID sched c)"
  using assms(1,2)
proof (induction sched arbitrary: c)
  case Nil
  then show ?case by simp
next
  case (Cons t sched)
  from Cons.prems(2) have t: "t < N" and rest: "set sched \<subseteq> {..<N}" by simp_all
  have "vote_inv N s h0 p i (call_step now pollID optionID t c)"
    by (rule call_step_inv [OF Cons.prems(1) t assms(3-7)])
  from Cons.IH [OF this rest] show ?case by simp
qed

lemma exec_append:
  "exec now pollID optionID (xs @ ys) c = exec now pollID optionID ys (exec now pollID optionID xs c)"
  by (induction xs arbitrary: c) simp_all

text \<open>A call that waits for the lock does nothing.\<close>

lemma call_step_blocked:
  "calls c t = Idle \<Longrightarrow> mu c = Some u \<Longrightarrow> call_step now pollID optionID t c = c"
  by (simp add: call_step_def)

text \<open>A call that runs alone, with the lock free, does what \<^verbatim>\<open>Vote\<close> does.\<close>

lemma call_alone:
  assumes "mu c = None" "calls c t = Idle"
  shows "exec now pollID optionID [t, t, t, t] c =
     (case Vote (now t) (store c) (mem c) pollID optionID of
        (res, s', h') \<Rightarrow> c\<lparr>mem := h', calls := (calls c)(t := Returned res)\<rparr>)"
proof (cases "Vote_read (now t) (store c) (mem c) pollID optionID")
  case (Inl e)
  have "c\<lparr>mu := None, calls := (calls c)(t := Returned (Inl e))\<rparr> =
        c\<lparr>calls := (calls c)(t := Returned (Inl e))\<rparr>"
    using assms(1) by simp
  then show ?thesis
    using assms Inl by (simp add: call_step_def Vote_split)
next
  case (Inr x)
  obtain poll a v where x: "x = (poll, a, v)" by (cases x)
  obtain r h' where w: "Vote_write (mem c) poll a v = (r, h')"
    by (cases "Vote_write (mem c) poll a v")
  have "c\<lparr>mu := None, mem := h', calls := (calls c)(t := Returned (Inr r))\<rparr> =
        c\<lparr>mem := h', calls := (calls c)(t := Returned (Inr r))\<rparr>"
    using assms(1) by simp
  then show ?thesis
    using assms Inr x w by (simp add: call_step_def Vote_split)
qed

text \<open>A call that holds the lock returns after three steps, and releases the lock.\<close>

lemma call_holding:
  assumes "calls c t = Holding"
  shows "\<exists>res h'. exec now pollID optionID [t, t, t] c =
           c\<lparr>mu := None, mem := h', calls := (calls c)(t := Returned res)\<rparr>"
proof (cases "Vote_read (now t) (store c) (mem c) pollID optionID")
  case (Inl e)
  have "exec now pollID optionID [t, t, t] c =
        c\<lparr>mu := None, mem := mem c, calls := (calls c)(t := Returned (Inl e))\<rparr>"
    using assms Inl by (simp add: call_step_def)
  then show ?thesis by blast
next
  case (Inr x)
  obtain poll a v where x: "x = (poll, a, v)" by (cases x)
  obtain r h' where w: "Vote_write (mem c) poll a v = (r, h')"
    by (cases "Vote_write (mem c) poll a v")
  have "exec now pollID optionID [t, t, t] c =
        c\<lparr>mu := None, mem := h', calls := (calls c)(t := Returned (Inr r))\<rparr>"
    using assms Inr x w by (simp add: call_step_def)
  then show ?thesis by blast
qed

section \<open>Voting\<close>

text \<open>
  Claim C2. In a well-formed memory, when the store holds a poll under \<open>pollID\<close> that is
  not expired and has an option with the identifier \<open>optionID\<close>, \<^verbatim>\<open>Vote\<close> succeeds and
  leaves the store's map as it is. The first option \<open>i\<close> with that identifier has its
  counter incremented by one (the \<^verbatim>\<open>++\<close> of a 64-bit \<^verbatim>\<open>int\<close>); every other option and
  every field of the stored record are unchanged; the result is a pointer to a new record,
  on cells of its own, that reads the same as the updated poll.
\<close>

theorem Vote_increments:
  assumes "wf_heap h" and "wf_store s h"
    and "polls s pollID = Some p" and "\<not> IsExpired now h p"
    and "optionID \<in> set (map Option.ID (options_of h p))"
  shows "\<exists>i h'. i < length (options_of h p) \<and>
           Option.ID (options_of h p ! i) = optionID \<and>
           (\<forall>j<i. Option.ID (options_of h p ! j) \<noteq> optionID) \<and>
           Vote now s h pollID optionID = (Inr (nextPoll h), s, h') \<and>
           options_of h' p =
             (options_of h p)[i := (options_of h p ! i)\<lparr>Votes := Votes (options_of h p ! i) + 1\<rparr>] \<and>
           pollAt h' p = pollAt h p \<and>
           deref h' (nextPoll h) = deref h' p \<and>
           Data (Options (pollAt h' (nextPoll h))) = nextCell h"
proof -
  let ?sl = "Options (pollAt h p)"
  have p: "p < nextPoll h"
    using assms(2,3) by (auto simp: wf_store_def)
  have "Vote_loop h optionID (Data ?sl) (Len ?sl) \<noteq> None"
    using assms(5) unfolding Vote_loop_None options_of_ids by blast
  then obtain b where b: "Vote_loop h optionID (Data ?sl) (Len ?sl) = Some b"
    by blast
  from Vote_loop_Some [OF this] obtain i where i: "i < Len ?sl" "b = Data ?sl + i"
    "Option.ID (cellAt h (Data ?sl + i)) = optionID"
    "\<forall>j<i. Option.ID (cellAt h (Data ?sl + j)) \<noteq> optionID"
    by blast
  have nth: "\<And>j. j < Len ?sl \<Longrightarrow> options_of h p ! j = cellAt h (Data ?sl + j)"
    by (simp add: options_of_def elems_nth)
  from Vote_success [OF assms(1,3) p assms(4) b [unfolded i(2)] i(1)]
  obtain h' where h': "Vote now s h pollID optionID = (Inr (nextPoll h), s, h')"
    "options_of h' p =
       (options_of h p)[i := (options_of h p ! i)\<lparr>Votes := Votes (options_of h p ! i) + 1\<rparr>]"
    "pollAt h' p = pollAt h p" "deref h' (nextPoll h) = deref h' p"
    "Data (Options (pollAt h' (nextPoll h))) = nextCell h"
    by blast
  have "i < length (options_of h p)"
    using i(1) by (simp add: options_of_def)
  moreover have "Option.ID (options_of h p ! i) = optionID"
    using i(1,3) by (simp add: nth)
  moreover have "\<forall>j<i. Option.ID (options_of h p ! j) \<noteq> optionID"
    using i(1,4) by (simp add: nth)
  ultimately show ?thesis using h' by blast
qed

theorem Vote_increments_witness:
  "wf_heap ex_heap \<and> wf_store ex_store ex_heap \<and> polls ex_store ''p1'' = Some 0 \<and>
   \<not> IsExpired 40 ex_heap 0 \<and> ''b'' \<in> set (map Option.ID (options_of ex_heap 0)) \<and>
   (\<exists>h'. Vote 40 ex_store ex_heap ''p1'' ''b'' = (Inr 3, ex_store, h') \<and>
      options_of h' 0 =
        [\<lparr>Option.ID = ''a'', Text = ''Tabs'', Votes = 25\<rparr>,
         \<lparr>Option.ID = ''b'', Text = ''Spaces'', Votes = 76\<rparr>] \<and>
      pollAt h' 0 = pollAt ex_heap 0 \<and> deref h' 3 = deref h' 0 \<and>
      Data (Options (pollAt h' 3)) = 5)"
proof -
  have 1: "polls ex_store ''p1'' = Some 0"
    by (simp add: ex_store_def)
  have 2: "\<not> IsExpired 40 ex_heap 0"
    by (simp add: IsExpired_def IsZero_def ex_heap_def)
  have 3: "''b'' \<in> set (map Option.ID (options_of ex_heap 0))"
    by (simp add: ex_options_0)
  from Vote_increments [OF ex_wf_heap ex_wf_store 1 2 3]
  obtain i h' where i: "i < length (options_of ex_heap 0)"
    "Option.ID (options_of ex_heap 0 ! i) = ''b''"
    and h': "Vote 40 ex_store ex_heap ''p1'' ''b'' = (Inr (nextPoll ex_heap), ex_store, h')"
    "options_of h' 0 = (options_of ex_heap 0)
        [i := (options_of ex_heap 0 ! i)\<lparr>Votes := Votes (options_of ex_heap 0 ! i) + 1\<rparr>]"
    "pollAt h' 0 = pollAt ex_heap 0" "deref h' (nextPoll ex_heap) = deref h' 0"
    "Data (Options (pollAt h' (nextPoll ex_heap))) = nextCell ex_heap"
    by blast
  from i have "i = 1"
    by (auto simp: ex_options_0 less_Suc_eq numeral_2_eq_2)
  with h' have "Vote 40 ex_store ex_heap ''p1'' ''b'' = (Inr 3, ex_store, h') \<and>
      options_of h' 0 =
        [\<lparr>Option.ID = ''a'', Text = ''Tabs'', Votes = 25\<rparr>,
         \<lparr>Option.ID = ''b'', Text = ''Spaces'', Votes = 76\<rparr>] \<and>
      pollAt h' 0 = pollAt ex_heap 0 \<and> deref h' 3 = deref h' 0 \<and>
      Data (Options (pollAt h' 3)) = 5"
    by (simp add: ex_options_0) (simp add: ex_heap_def)
  with ex_wf_heap ex_wf_store 1 2 3 show ?thesis by blast
qed

text \<open>
  Claim C3. \<^verbatim>\<open>Vote\<close> fails with \<open>PollNotFound\<close> when the map has no poll under
  \<open>pollID\<close>; with \<open>PollExpired\<close> when the poll exists and its expiry time is set and
  before \<open>now\<close>, whatever the option; with \<open>OptionNotFound\<close> when the poll exists, is
  not expired and has no option \<open>optionID\<close>. Whenever it fails, the store and the whole
  memory, hence every counter, are as before.
\<close>

theorem Vote_errors:
  "(polls s pollID = None \<longrightarrow> Vote now s h pollID optionID = (Inl PollNotFound, s, h)) \<and>
   (\<forall>p. polls s pollID = Some p \<and> \<not> IsZero (ExpiresAt (pollAt h p)) \<and>
        After now (ExpiresAt (pollAt h p)) \<longrightarrow>
        Vote now s h pollID optionID = (Inl PollExpired, s, h)) \<and>
   (\<forall>p. polls s pollID = Some p \<and> \<not> IsExpired now h p \<and>
        optionID \<notin> set (map Option.ID (options_of h p)) \<longrightarrow>
        Vote now s h pollID optionID = (Inl OptionNotFound, s, h)) \<and>
   (\<forall>e s' h'. Vote now s h pollID optionID = (Inl e, s', h') \<longrightarrow> s' = s \<and> h' = h)"
proof (intro conjI allI impI)
  show "Vote now s h pollID optionID = (Inl PollNotFound, s, h)" if "polls s pollID = None"
    using that by (simp add: Vote_def)
next
  fix p
  assume "polls s pollID = Some p \<and> \<not> IsZero (ExpiresAt (pollAt h p)) \<and>
        After now (ExpiresAt (pollAt h p))"
  then show "Vote now s h pollID optionID = (Inl PollExpired, s, h)"
    by (simp add: Vote_def IsExpired_def)
next
  fix p
  assume a: "polls s pollID = Some p \<and> \<not> IsExpired now h p \<and>
        optionID \<notin> set (map Option.ID (options_of h p))"
  then have "Vote_loop h optionID (Data (Options (pollAt h p))) (Len (Options (pollAt h p))) = None"
    unfolding Vote_loop_None options_of_ids by blast
  with a show "Vote now s h pollID optionID = (Inl OptionNotFound, s, h)"
    by (simp add: Vote_def)
next
  fix e s' h'
  assume "Vote now s h pollID optionID = (Inl e, s', h')"
  then show "s' = s" 
    by (auto simp: Vote_def Let_def split: option.splits if_splits prod.splits)
next
  fix e s' h'
  assume "Vote now s h pollID optionID = (Inl e, s', h')"
  then show "h' = h" 
    by (auto simp: Vote_def Let_def split: option.splits if_splits prod.splits)
qed
theorem Vote_errors_witness:
  "polls ex_store ''nope'' = None \<and>
   Vote 40 ex_store ex_heap ''nope'' ''a'' = (Inl PollNotFound, ex_store, ex_heap) \<and>
   polls ex_store ''p2'' = Some 1 \<and> \<not> IsZero (ExpiresAt (pollAt ex_heap 1)) \<and>
   After 40 (ExpiresAt (pollAt ex_heap 1)) \<and>
   Vote 40 ex_store ex_heap ''p2'' ''nope'' = (Inl PollExpired, ex_store, ex_heap) \<and>
   polls ex_store ''p1'' = Some 0 \<and> \<not> IsExpired 40 ex_heap 0 \<and>
   ''x'' \<notin> set (map Option.ID (options_of ex_heap 0)) \<and>
   Vote 40 ex_store ex_heap ''p1'' ''x'' = (Inl OptionNotFound, ex_store, ex_heap)"
proof -
  have 1: "polls ex_store ''nope'' = None" "polls ex_store ''p2'' = Some 1"
    "polls ex_store ''p1'' = Some 0"
    by (simp_all add: ex_store_def)
  have 2: "\<not> IsZero (ExpiresAt (pollAt ex_heap 1))" "After 40 (ExpiresAt (pollAt ex_heap 1))"
    "\<not> IsExpired 40 ex_heap 0"
    by (simp_all add: IsExpired_def IsZero_def After_def ex_heap_def)
  have 3: "''x'' \<notin> set (map Option.ID (options_of ex_heap 0))"
    by (simp add: ex_options_0)
  show ?thesis
    using Vote_errors [of ex_store "''nope''" 40 ex_heap "''a''"]
      Vote_errors [of ex_store "''p2''" 40 ex_heap "''nope''"]
      Vote_errors [of ex_store "''p1''" 40 ex_heap "''x''"] 1 2 3
    by blast
qed

section \<open>Snapshots\<close>

text \<open>
  Claim C6. In a well-formed memory, the pointer that \<^verbatim>\<open>Get\<close> or \<^verbatim>\<open>Vote\<close> returns, and
  every pointer in the result of \<^verbatim>\<open>List\<close>, is a value copy that is \<open>independent\<close>. A value
  copy: the snapshot of \<^verbatim>\<open>Get\<close> reads (identifier, question, options with their counters,
  creation and expiry time) what the stored record read before the call, the snapshot of
  \<^verbatim>\<open>Vote\<close> reads what the stored record reads after the vote, and the snapshots of
  \<^verbatim>\<open>List\<close> read, one for one, what the stored records of the visited keys read;
  \<^verbatim>\<open>Get\<close> and \<^verbatim>\<open>List\<close> leave every existing record as it was. Independent: the snapshot
  is a record allocated by the call, and whatever a caller then writes through it (scalar
  fields, elements of its option slice, a new option slice) changes nothing that any
  other pointer reads. The stored records and the snapshots handed out earlier are
  pointers that existed before the call, and the other snapshots of one \<^verbatim>\<open>List\<close> are
  other pointers.
\<close>

theorem snapshots_independent:
  assumes "wf_heap h" and "wf_store s h"
  shows "(\<forall>r b h'. Get s h pid = ((Some r, b), h') \<longrightarrow>
            independent h h' r \<and> b \<and>
            (\<exists>p. polls s pid = Some p \<and> deref h' r = deref h p) \<and>
            (\<forall>q<nextPoll h. deref h' q = deref h q)) \<and>
         (\<forall>r s' h'. Vote now s h pollID optionID = (Inr r, s', h') \<longrightarrow>
            independent h h' r \<and>
            (\<exists>p. polls s pollID = Some p \<and> deref h' r = deref h' p)) \<and>
         (\<forall>rs h'. sort_Slice_spec srt \<and> List srt ks s h = (rs, h') \<longrightarrow>
            (\<forall>r\<in>set rs. independent h h' r) \<and>
            mset (map (deref h') rs) =
              mset (map (\<lambda>k. deref h (the (polls s k))) (filter (\<lambda>k. polls s k \<noteq> None) ks)) \<and>
            (\<forall>q<nextPoll h. deref h' q = deref h q))"
proof (intro conjI; intro allI impI)
  fix r b h'
  assume g: "Get s h pid = ((Some r, b), h')"
  then obtain p where p: "polls s pid = Some p"
    by (cases "polls s pid") (auto simp: Get_None)
  have pn: "p < nextPoll h" by (rule wf_storeD [OF assms(2) p])
  from g Get_Some [OF p, of h] have r: "r = nextPoll h" and h': "h' = snd (copyPoll h p)"
    and b: "b" by simp_all
  have 1: "independent h h' r"
    using copyPoll_independent [OF assms(1) pn] by (simp add: r h')
  have 2: "deref h' r = deref h p"
    unfolding r h' by (rule copyPoll_deref_new [OF assms(1) pn])
  have 3: "\<forall>q<nextPoll h. deref h' q = deref h q"
    unfolding h' by (simp add: copyPoll_deref_old [OF assms(1)])
  from 1 2 3 b p
  show "independent h h' r \<and> b \<and> (\<exists>p. polls s pid = Some p \<and> deref h' r = deref h p) \<and>
        (\<forall>q<nextPoll h. deref h' q = deref h q)"
    by blast
next
  fix r s' h'
  assume "Vote now s h pollID optionID = (Inr r, s', h')"
  from Vote_Inr [OF this] obtain p a where p: "polls s pollID = Some p" and r: "r = nextPoll h"
    and h': "h' = snd (copyPoll (h\<lparr>cellAt := (cellAt h)(a := (cellAt h a)\<lparr>Votes := Votes (cellAt h a) + 1\<rparr>)\<rparr>) p)"
    by blast
  define h1 where "h1 = h\<lparr>cellAt := (cellAt h)(a := (cellAt h a)\<lparr>Votes := Votes (cellAt h a) + 1\<rparr>)\<rparr>"
  have wf1: "wf_heap h1" and p1: "p < nextPoll h1" and n1: "nextPoll h1 = nextPoll h"
    using assms(1) wf_storeD [OF assms(2) p] by (simp_all add: h1_def)
  have h'1: "h' = snd (copyPoll h1 p)" by (simp add: h' h1_def)
  have 1: "independent h h' r"
    using copyPoll_independent [OF wf1 p1] by (simp add: independent_def r h'1 n1)
  have "deref h' r = deref h1 p"
    using copyPoll_deref_new [OF wf1 p1] by (simp add: h'1 r n1)
  also have "\<dots> = deref h' p"
    using copyPoll_deref_old [OF wf1 p1, of p] by (simp add: h'1)
  finally have 2: "deref h' r = deref h' p" .
  from 1 2 p
  show "independent h h' r \<and> (\<exists>p. polls s pollID = Some p \<and> deref h' r = deref h' p)"
    by blast
next
  fix rs h'
  assume a: "sort_Slice_spec srt \<and> List srt ks s h = (rs, h')"
  let ?kk = "filter (\<lambda>k. polls s k \<noteq> None) ks"
  let ?n = "length ?kk"
  let ?ps = "[nextPoll h ..< nextPoll h + ?n]"
  from List_result [OF assms, of srt ks] a
  have rs: "rs = srt (\<lambda>a b. After (CreatedAt (pollAt h' a)) (CreatedAt (pollAt h' b))) ?ps"
    and wf': "wf_heap h'" and np': "nextPoll h' = nextPoll h + ?n"
    and old: "\<forall>q<nextPoll h. deref h' q = deref h q"
    and new: "\<forall>j<?n. deref h' (nextPoll h + j) = deref h (the (polls s (?kk ! j)))"
    and iso: "\<forall>j<?n. isolated h' (nextPoll h + j)"
    by auto
  have 1: "\<forall>r\<in>set rs. independent h h' r"
  proof
    fix r assume "r \<in> set rs"
    then have r: "nextPoll h \<le> r" "r < nextPoll h + ?n"
      using a by (simp_all add: rs sort_Slice_set)
    then have "isolated h' (nextPoll h + (r - nextPoll h))"
      by (intro iso [rule_format]) simp
    with r have "isolated h' r" by simp
    with wf' r np' show "independent h h' r"
      by (intro independentI) simp_all
  qed
  have perm: "mset rs = mset ?ps"
    using a by (simp add: rs sort_Slice_spec_def)
  have "map (deref h') ?ps = map (\<lambda>k. deref h (the (polls s k))) ?kk"
    by (rule nth_equalityI) (simp_all add: new)
  then have 2: "mset (map (deref h') rs) = mset (map (\<lambda>k. deref h (the (polls s k))) ?kk)"
    using perm by (metis mset_map)
  from 1 2 old
  show "(\<forall>r\<in>set rs. independent h h' r) \<and>
        mset (map (deref h') rs) = mset (map (\<lambda>k. deref h (the (polls s k))) ?kk) \<and>
        (\<forall>q<nextPoll h. deref h' q = deref h q)"
    by blast
qed

theorem snapshots_independent_witness:
  "wf_heap ex_heap \<and> wf_store ex_store ex_heap \<and>
   (\<exists>h'. Get ex_store ex_heap ''p1'' = ((Some 3, True), h') \<and> independent ex_heap h' 3 \<and>
      deref h' 3 =
        (''p1'', ''Tabs or spaces?'',
         [\<lparr>Option.ID = ''a'', Text = ''Tabs'', Votes = 25\<rparr>,
          \<lparr>Option.ID = ''b'', Text = ''Spaces'', Votes = 75\<rparr>], 10, 0) \<and>
      deref h' 0 = deref ex_heap 0 \<and>
      deref (mutate_all h' 3
            [SetOption 0 \<lparr>Option.ID = ''a'', Text = ''Tabs'', Votes = 100\<rparr>,
             SetQuestion ''changed'']) 0 = deref ex_heap 0) \<and>
   (\<exists>h'. Vote 40 ex_store ex_heap ''p1'' ''a'' = (Inr 3, ex_store, h') \<and>
      independent ex_heap h' 3 \<and>
      deref h' 3 =
        (''p1'', ''Tabs or spaces?'',
         [\<lparr>Option.ID = ''a'', Text = ''Tabs'', Votes = 26\<rparr>,
          \<lparr>Option.ID = ''b'', Text = ''Spaces'', Votes = 75\<rparr>], 10, 0)) \<and>
   sort_Slice_spec (insertion_sort :: (nat \<Rightarrow> nat \<Rightarrow> bool) \<Rightarrow> nat list \<Rightarrow> nat list) \<and>
   (\<exists>h'. List insertion_sort [''p1'', ''p2''] ex_store ex_heap = ([4, 3], h') \<and>
      independent ex_heap h' 4 \<and> independent ex_heap h' 3 \<and>
      mset (map (deref h') [4, 3]) =
        mset [(''p1'', ''Tabs or spaces?'',
               [\<lparr>Option.ID = ''a'', Text = ''Tabs'', Votes = 25\<rparr>,
                \<lparr>Option.ID = ''b'', Text = ''Spaces'', Votes = 75\<rparr>], 10, 0),
              (''p2'', ''Lunch?'', [\<lparr>Option.ID = ''x'', Text = ''Soup'', Votes = 1\<rparr>], 20, 30)])"
proof -
  note inst = snapshots_independent [OF ex_wf_heap ex_wf_store,
      of "''p1''" 40 "''p1''" "''a''" insertion_sort "[''p1'', ''p2'']"]
  have srt: "sort_Slice_spec (insertion_sort :: (nat \<Rightarrow> nat \<Rightarrow> bool) \<Rightarrow> nat list \<Rightarrow> nat list)"
    by (rule insertion_sort_spec)
  have d0: "deref ex_heap 0 =
        (''p1'', ''Tabs or spaces?'',
         [\<lparr>Option.ID = ''a'', Text = ''Tabs'', Votes = 25\<rparr>,
          \<lparr>Option.ID = ''b'', Text = ''Spaces'', Votes = 75\<rparr>], 10, 0)"
    by (simp add: deref_def ex_pollAt ex_options_0)
  have d1: "deref ex_heap 1 =
        (''p2'', ''Lunch?'', [\<lparr>Option.ID = ''x'', Text = ''Soup'', Votes = 1\<rparr>], 20, 30)"
    by (simp add: deref_def ex_pollAt_Suc ex_options_1 [unfolded One_nat_def])
  define hg where "hg = snd (copyPoll ex_heap 0)"
  have g: "Get ex_store ex_heap ''p1'' = ((Some 3, True), hg)"
    by (simp add: Get_Some [OF ex_polls(1)] ex_next hg_def)
  with inst have ig: "independent ex_heap hg 3"
    and cg: "\<exists>p. polls ex_store ''p1'' = Some p \<and> deref hg 3 = deref ex_heap p"
    and og: "\<forall>q<nextPoll ex_heap. deref hg q = deref ex_heap q"
    by blast+
  from cg have g3: "deref hg 3 = deref ex_heap 0" by (simp add: ex_polls)
  from og have g0: "deref hg 0 = deref ex_heap 0" by (simp add: ex_next)
  have "nextPoll hg = 4" by (simp add: hg_def copyPoll_nextPoll ex_next)
  have frame: "\<And>ms q. q < nextPoll hg \<Longrightarrow> q \<noteq> 3 \<Longrightarrow> deref (mutate_all hg 3 ms) q = deref hg q"
    using ig unfolding independent_def by blast
  have "deref (mutate_all hg 3
            [SetOption 0 \<lparr>Option.ID = ''a'', Text = ''Tabs'', Votes = 100\<rparr>,
             SetQuestion ''changed'']) 0 = deref hg 0"
    by (rule frame) (simp_all add: \<open>nextPoll hg = 4\<close>)
  with g0 have "deref (mutate_all hg 3
            [SetOption 0 \<lparr>Option.ID = ''a'', Text = ''Tabs'', Votes = 100\<rparr>,
             SetQuestion ''changed'']) 0 = deref ex_heap 0"
    by simp
  with g ig g3 g0 have 1: "\<exists>h'. Get ex_store ex_heap ''p1'' = ((Some 3, True), h') \<and>
      independent ex_heap h' 3 \<and>
      deref h' 3 =
        (''p1'', ''Tabs or spaces?'',
         [\<lparr>Option.ID = ''a'', Text = ''Tabs'', Votes = 25\<rparr>,
          \<lparr>Option.ID = ''b'', Text = ''Spaces'', Votes = 75\<rparr>], 10, 0) \<and>
      deref h' 0 = deref ex_heap 0 \<and>
      deref (mutate_all h' 3
            [SetOption 0 \<lparr>Option.ID = ''a'', Text = ''Tabs'', Votes = 100\<rparr>,
             SetQuestion ''changed'']) 0 = deref ex_heap 0"
    unfolding d0 by blast
  from Vote_success [OF ex_wf_heap ex_polls(1) _ ex_not_expired ex_Vote_loop_a]
  obtain hv where "Vote 40 ex_store ex_heap ''p1'' ''a'' = (Inr (nextPoll ex_heap), ex_store, hv)"
    and ov: "options_of hv 0 = (options_of ex_heap 0)
        [0 := (options_of ex_heap 0 ! 0)\<lparr>Votes := Votes (options_of ex_heap 0 ! 0) + 1\<rparr>]"
    and pv: "pollAt hv 0 = pollAt ex_heap 0"
    by (auto simp: ex_next ex_pollAt)
  then have v: "Vote 40 ex_store ex_heap ''p1'' ''a'' = (Inr 3, ex_store, hv)"
    by (simp add: ex_next)
  with inst have iv: "independent ex_heap hv 3"
    and cv: "\<exists>p. polls ex_store ''p1'' = Some p \<and> deref hv 3 = deref hv p"
    by blast+
  from cv have "deref hv 3 = deref hv 0" by (simp add: ex_polls)
  also have "\<dots> = (''p1'', ''Tabs or spaces?'',
         [\<lparr>Option.ID = ''a'', Text = ''Tabs'', Votes = 26\<rparr>,
          \<lparr>Option.ID = ''b'', Text = ''Spaces'', Votes = 75\<rparr>], 10, 0)"
    by (simp add: deref_def ov pv ex_pollAt ex_options_0)
  finally have 2: "\<exists>h'. Vote 40 ex_store ex_heap ''p1'' ''a'' = (Inr 3, ex_store, h') \<and>
      independent ex_heap h' 3 \<and>
      deref h' 3 =
        (''p1'', ''Tabs or spaces?'',
         [\<lparr>Option.ID = ''a'', Text = ''Tabs'', Votes = 26\<rparr>,
          \<lparr>Option.ID = ''b'', Text = ''Spaces'', Votes = 75\<rparr>], 10, 0)"
    using v iv by blast
  from ex_List obtain hl where
    l: "List insertion_sort [''p1'', ''p2''] ex_store ex_heap = ([4, 3], hl)"
    by blast
  have kk: "filter (\<lambda>k. polls ex_store k \<noteq> None) [''p1'', ''p2''] = [''p1'', ''p2'']"
    by (simp add: ex_polls)
  from inst srt l have il: "independent ex_heap hl 4" "independent ex_heap hl 3"
    and ml: "mset (map (deref hl) [4, 3]) =
       mset (map (\<lambda>k. deref ex_heap (the (polls ex_store k)))
          (filter (\<lambda>k. polls ex_store k \<noteq> None) [''p1'', ''p2'']))"
    by auto
  have "mset (map (deref hl) [4, 3]) = mset [deref ex_heap 0, deref ex_heap 1]"
    using ml unfolding kk by (simp add: ex_polls)
  with l il have 3: "\<exists>h'. List insertion_sort [''p1'', ''p2''] ex_store ex_heap = ([4, 3], h') \<and>
      independent ex_heap h' 4 \<and> independent ex_heap h' 3 \<and>
      mset (map (deref h') [4, 3]) =
        mset [(''p1'', ''Tabs or spaces?'',
               [\<lparr>Option.ID = ''a'', Text = ''Tabs'', Votes = 25\<rparr>,
                \<lparr>Option.ID = ''b'', Text = ''Spaces'', Votes = 75\<rparr>], 10, 0),
              (''p2'', ''Lunch?'', [\<lparr>Option.ID = ''x'', Text = ''Soup'', Votes = 1\<rparr>], 20, 30)]"
    unfolding d0 d1 by blast
  from ex_wf_heap ex_wf_store 1 2 srt 3 show ?thesis by blast
qed

section \<open>Creating under an identifier that is in use\<close>

text \<open>
  Claim C10. When the store holds a poll under the identifier \<open>X\<close>, \<^verbatim>\<open>Create\<close> of a record
  whose identifier is \<open>X\<close> (a non-empty one: the empty identifier stands for none) returns
  without a panic and stores the new pointer under \<open>X\<close> in place of the old one. A
  \<^verbatim>\<open>Get\<close> of \<open>X\<close> then reads the question and the options, counters included, of the new
  record and the creation time \<open>now\<close>: nothing of the poll stored before is returned.
\<close>

theorem Create_replaces:
  assumes "wf_heap h" and "wf_store s h" and "polls s X = Some old"
    and "p < nextPoll h" and "Poll.ID (pollAt h p) = X" and "X \<noteq> []"
  shows "\<exists>s' h' h''. Create now rnd s h (Some p) = Inr (s', h') \<and>
           polls s' = (polls s)(X \<mapsto> p) \<and>
           Get s' h' X = ((Some (nextPoll h), True), h'') \<and>
           deref h'' (nextPoll h) =
             (X, Question (pollAt h p), options_of h p, now, ExpiresAt (pollAt h p))"
proof -
  define s' where "s' = s\<lparr>polls := (polls s)(X \<mapsto> p)\<rparr>"
  define h' where "h' = h\<lparr>pollAt := (pollAt h)(p := (pollAt h p)\<lparr>Poll.ID := X, CreatedAt := now\<rparr>)\<rparr>"
  have key: "Create_key rnd h p = X"
    using assms(5,6) by (simp add: Create_key_def)
  have c: "Create now rnd s h (Some p) = Inr (s', h')"
    by (simp add: Create_Some key s'_def h'_def)
  have wf': "wf_heap h'"
    using assms(1) by (simp add: h'_def wf_heap_pollAt_fields)
  have p': "p < nextPoll h'" "nextPoll h' = nextPoll h"
    using assms(4) by (simp_all add: h'_def)
  have g: "Get s' h' X = ((Some (nextPoll h), True), snd (copyPoll h' p))"
    using Get_Some [of s' X p h'] by (simp add: s'_def p')
  have "deref (snd (copyPoll h' p)) (nextPoll h) = deref h' p"
    using copyPoll_deref_new [OF wf' p'(1)] by (simp add: p')
  also have "\<dots> = (X, Question (pollAt h p), options_of h p, now, ExpiresAt (pollAt h p))"
    by (simp add: deref_def h'_def [symmetric]) (simp add: h'_def options_of_pollAt_fields)
  finally show ?thesis
    using c g by (auto simp: s'_def)
qed

theorem Create_replaces_witness:
  "wf_heap ex_heap \<and> wf_store ex_store ex_heap \<and> polls ex_store ''p1'' = Some 0 \<and>
   2 < nextPoll ex_heap \<and> Poll.ID (pollAt ex_heap 2) = ''p1'' \<and> ''p1'' \<noteq> [] \<and>
   deref ex_heap 0 =
     (''p1'', ''Tabs or spaces?'',
      [\<lparr>Option.ID = ''a'', Text = ''Tabs'', Votes = 25\<rparr>,
       \<lparr>Option.ID = ''b'', Text = ''Spaces'', Votes = 75\<rparr>], 10, 0) \<and>
   (\<exists>s' h' h''. Create 50 (0, 0, 0, 0) ex_store ex_heap (Some 2) = Inr (s', h') \<and>
      polls s' = (polls ex_store)(''p1'' \<mapsto> 2) \<and>
      Get s' h' ''p1'' = ((Some 3, True), h'') \<and>
      deref h'' 3 =
        (''p1'', ''Vim or Emacs?'',
         [\<lparr>Option.ID = ''v'', Text = ''Vim'', Votes = 0\<rparr>,
          \<lparr>Option.ID = ''e'', Text = ''Emacs'', Votes = 0\<rparr>], 50, 0))"
proof -
  have 1: "2 < nextPoll ex_heap" "''p1'' \<noteq> []"
    by (simp_all add: ex_next)
  have 2: "deref ex_heap 0 =
     (''p1'', ''Tabs or spaces?'',
      [\<lparr>Option.ID = ''a'', Text = ''Tabs'', Votes = 25\<rparr>,
       \<lparr>Option.ID = ''b'', Text = ''Spaces'', Votes = 75\<rparr>], 10, 0)"
    by (simp add: deref_def ex_pollAt ex_options_0)
  from Create_replaces [OF ex_wf_heap ex_wf_store ex_polls(1) 1(1) ex_Create_key 1(2),
      of 50 "(0, 0, 0, 0)"]
  have "\<exists>s' h' h''. Create 50 (0, 0, 0, 0) ex_store ex_heap (Some 2) = Inr (s', h') \<and>
      polls s' = (polls ex_store)(''p1'' \<mapsto> 2) \<and>
      Get s' h' ''p1'' = ((Some 3, True), h'') \<and>
      deref h'' 3 =
        (''p1'', ''Vim or Emacs?'',
         [\<lparr>Option.ID = ''v'', Text = ''Vim'', Votes = 0\<rparr>,
          \<lparr>Option.ID = ''e'', Text = ''Emacs'', Votes = 0\<rparr>], 50, 0)"
    by (simp add: ex_next ex_pollAt ex_options_2)
  with ex_wf_heap ex_wf_store ex_polls(1) 1 ex_Create_key 2 show ?thesis by blast
qed

section \<open>What stays of a stored poll\<close>

text \<open>
  Claim C7, as stated, fails: \<^verbatim>\<open>Create\<close> under an identifier that is in use replaces the
  stored poll. In the example state the poll \<open>p1\<close> has the counters 25 and 75; after
  one \<^verbatim>\<open>Create\<close> of a record with the same identifier, the store holds under \<open>p1\<close>
  another question, other options, the counters 0 and 0 and another creation time.
\<close>

theorem stored_poll_replaced:
  "store_inv (ex_store, ex_heap) \<and> polls ex_store ''p1'' = Some 0 \<and>
   Question (pollAt ex_heap 0) = ''Tabs or spaces?'' \<and> CreatedAt (pollAt ex_heap 0) = 10 \<and>
   map Option.ID (options_of ex_heap 0) = [''a'', ''b''] \<and>
   map Votes (options_of ex_heap 0) = [25, 75] \<and>
   polls (fst (run [OpCreate 50 (0, 0, 0, 0) (Some 2)] (ex_store, ex_heap))) ''p1'' = Some 2 \<and>
   Question (pollAt (snd (run [OpCreate 50 (0, 0, 0, 0) (Some 2)] (ex_store, ex_heap))) 2) =
     ''Vim or Emacs?'' \<and>
   CreatedAt (pollAt (snd (run [OpCreate 50 (0, 0, 0, 0) (Some 2)] (ex_store, ex_heap))) 2) = 50 \<and>
   map Option.ID (options_of (snd (run [OpCreate 50 (0, 0, 0, 0) (Some 2)] (ex_store, ex_heap))) 2) =
     [''v'', ''e''] \<and>
   map Votes (options_of (snd (run [OpCreate 50 (0, 0, 0, 0) (Some 2)] (ex_store, ex_heap))) 2) =
     [0, 0]"
proof -
  have k: "Create_key (0, 0, 0, 0) ex_heap 2 = ''p1''"
    by (simp add: Create_key_def ex_pollAt)
  have "options_of (ex_heap\<lparr>pollAt := (pollAt ex_heap)
          (2 := (pollAt ex_heap 2)\<lparr>Poll.ID := ''p1'', CreatedAt := 50\<rparr>)\<rparr>) 2 = options_of ex_heap 2"
    by (simp add: options_of_pollAt_fields)
  then show ?thesis
    using ex_store_inv
    by (simp add: Create_Some k ex_polls ex_pollAt ex_options_0 ex_options_2)
qed

text \<open>
  Claim C7, amended. From a state that satisfies the store's invariant, along every run of
  repository calls (interleaved with callers building records) in which no \<^verbatim>\<open>Create\<close>
  stores under the identifier \<open>X\<close> and no \<^verbatim>\<open>Delete\<close> removes \<open>X\<close>: the poll stored under
  \<open>X\<close> stays the same record with the same identifier, question, creation and expiry
  time; its options keep their identifiers, texts, number and order; each counter is
  incremented at most once per call, so that it does not decrease as long as the
  increments cannot wrap around (counter + number of calls below \<open>2^63\<close>).
\<close>

theorem stored_poll_stable:
  assumes "store_inv st" and "valid_run cs st" and "keeps X cs st"
    and "polls (fst st) X = Some r"
  shows "polls (fst (run cs st)) X = Some r \<and>
         pollAt (snd (run cs st)) r = pollAt (snd st) r \<and>
         grown (length cs) (options_of (snd st) r) (options_of (snd (run cs st)) r) \<and>
         (\<forall>i<length (options_of (snd st) r).
            sint (Votes (options_of (snd st) r ! i)) + int (length cs) < 2 ^ 63 \<longrightarrow>
            sint (Votes (options_of (snd st) r ! i))
              \<le> sint (Votes (options_of (snd (run cs st)) r ! i)))"
  using run_keeps [OF assms] grown_sint by blast

theorem stored_poll_stable_witness:
  "store_inv (ex_store, ex_heap) \<and>
   valid_run [OpVote 40 ''p1'' ''b'', OpCreate 50 (0, 0, 0, 0) (Some 1), OpDelete ''p2'']
     (ex_store, ex_heap) \<and>
   keeps ''p1'' [OpVote 40 ''p1'' ''b'', OpCreate 50 (0, 0, 0, 0) (Some 1), OpDelete ''p2'']
     (ex_store, ex_heap) \<and>
   polls (fst (ex_store, ex_heap)) ''p1'' = Some 0 \<and>
   polls (fst (run [OpVote 40 ''p1'' ''b'', OpCreate 50 (0, 0, 0, 0) (Some 1), OpDelete ''p2'']
     (ex_store, ex_heap))) ''p1'' = Some 0 \<and>
   pollAt (snd (run [OpVote 40 ''p1'' ''b'', OpCreate 50 (0, 0, 0, 0) (Some 1), OpDelete ''p2'']
     (ex_store, ex_heap))) 0 = pollAt ex_heap 0 \<and>
   grown 3 (options_of ex_heap 0)
     (options_of (snd (run [OpVote 40 ''p1'' ''b'', OpCreate 50 (0, 0, 0, 0) (Some 1), OpDelete ''p2'']
     (ex_store, ex_heap))) 0) \<and>
   sint (Votes (options_of ex_heap 0 ! 1))
     \<le> sint (Votes (options_of (snd (run [OpVote 40 ''p1'' ''b'', OpCreate 50 (0, 0, 0, 0) (Some 1),
          OpDelete ''p2''] (ex_store, ex_heap))) 0 ! 1))"
proof -
  let ?cs = "[OpVote 40 ''p1'' ''b'', OpCreate 50 (0, 0, 0, 0) (Some 1), OpDelete ''p2'']"
  obtain res s1 h1 where v: "Vote 40 ex_store ex_heap ''p1'' ''b'' = (res, s1, h1)"
    by (cases "Vote 40 ex_store ex_heap ''p1'' ''b''") auto
  have inv1: "store_inv (s1, h1)"
    using step_inv [OF ex_store_inv, of "OpVote 40 ''p1'' ''b''"] by (simp add: v)
  have k1: "polls s1 ''p1'' = Some 0 \<and> pollAt h1 0 = pollAt ex_heap 0"
    using step_keeps [OF ex_store_inv, of "OpVote 40 ''p1'' ''b''" "''p1''" 0]
    by (simp add: v ex_polls)
  have s1: "s1 = ex_store"
    using v by (cases res) (auto dest: Vote_Inl Vote_Inr)
  have p1: "pollAt h1 1 = pollAt ex_heap 1 \<and> 1 < nextPoll h1"
    using step_keeps [OF ex_store_inv, of "OpVote 40 ''p1'' ''b''" "''p2''" 1]
      store_invD(5) [OF inv1, of "''p2''" 1]
    by (simp add: v ex_polls s1)
  have vr: "valid_run ?cs (ex_store, ex_heap)"
    using p1 by (simp add: v)
  have kp: "keeps ''p1'' ?cs (ex_store, ex_heap)"
    using p1 by (simp add: v Create_key_def ex_pollAt ex_pollAt_Suc)
  have X: "polls (fst (ex_store, ex_heap)) ''p1'' = Some 0"
    by (simp add: ex_polls)
  have small: "sint (Votes (options_of ex_heap 0 ! 1)) + int (length ?cs) < 2 ^ 63"
    by (simp add: ex_options_0)
  have len: "1 < length (options_of ex_heap 0)"
    by (simp add: ex_options_0)
  have l3: "length ?cs = 3" by simp
  note c = stored_poll_stable [OF ex_store_inv vr kp X, unfolded fst_conv snd_conv]
  from c have 1: "polls (fst (run ?cs (ex_store, ex_heap))) ''p1'' = Some 0"
    and 2: "pollAt (snd (run ?cs (ex_store, ex_heap))) 0 = pollAt ex_heap 0"
    and 3: "grown (length ?cs) (options_of ex_heap 0) (options_of (snd (run ?cs (ex_store, ex_heap))) 0)"
    by blast+
  from 3 have 3: "grown 3 (options_of ex_heap 0) (options_of (snd (run ?cs (ex_store, ex_heap))) 0)"
    by (simp only: l3)
  from c len small have 4: "sint (Votes (options_of ex_heap 0 ! 1))
     \<le> sint (Votes (options_of (snd (run ?cs (ex_store, ex_heap))) 0 ! 1))"
    by blast
  from ex_store_inv vr kp X 1 2 3 4 show ?thesis by blast
qed

section \<open>Listing\<close>

text \<open>
  Claim C8, as stated, fails where it says strictly: two polls created while the clock
  reads the same instant have equal creation times, and no order of them is strictly
  descending. In the state \<open>ex_tie\<close> both polls were created at time 7.
\<close>

theorem List_tie:
  "store_inv ex_tie \<and>
   fst (List insertion_sort [''00000000'', ''00000001''] (fst ex_tie) (snd ex_tie)) = [2, 3] \<and>
   CreatedAt (pollAt (snd (List insertion_sort [''00000000'', ''00000001''] (fst ex_tie) (snd ex_tie))) 2) = 7 \<and>
   CreatedAt (pollAt (snd (List insertion_sort [''00000000'', ''00000001''] (fst ex_tie) (snd ex_tie))) 3) = 7 \<and>
   \<not> sorted_wrt (\<lambda>a b.
         CreatedAt (pollAt (snd (List insertion_sort [''00000000'', ''00000001''] (fst ex_tie) (snd ex_tie))) b)
         < CreatedAt (pollAt (snd (List insertion_sort [''00000000'', ''00000001''] (fst ex_tie) (snd ex_tie))) a))
       (fst (List insertion_sort [''00000000'', ''00000001''] (fst ex_tie) (snd ex_tie)))"
proof -
  obtain s h where st: "ex_tie = (s, h)" by (cases ex_tie)
  have s: "polls s ''00000000'' = Some 0" "polls s ''00000001'' = Some 1"
    and h: "nextPoll h = 2" "CreatedAt (pollAt h 0) = 7" "CreatedAt (pollAt h 1) = 7"
    using st unfolding ex_tie_eq by auto
  let ?ks = "[''00000000'', ''00000001'']"
  have kk: "filter (\<lambda>k. polls s k \<noteq> None) ?ks = ?ks" by (simp add: s)
  have inv: "store_inv (s, h)" using ex_tie_inv by (simp add: st)
  from List_result [OF store_invD(1,2) [OF inv], of insertion_sort ?ks]
  obtain hl where l: "List insertion_sort ?ks s h =
           (insertion_sort (\<lambda>a b. After (CreatedAt (pollAt hl a)) (CreatedAt (pollAt hl b)))
              [nextPoll h ..< nextPoll h + length ?ks], hl)"
    and new: "\<forall>j<length ?ks. deref hl (nextPoll h + j) = deref h (the (polls s (?ks ! j)))"
    unfolding kk by blast
  have "deref hl 2 = deref h 0" "deref hl 3 = deref h 1"
    using new [rule_format, of 0] new [rule_format, of 1] by (simp_all add: h s)
  then have c: "CreatedAt (pollAt hl 2) = 7" "CreatedAt (pollAt hl 3) = 7"
    by (simp_all add: deref_eq_iff h h(3) [unfolded One_nat_def])
  have "[nextPoll h ..< nextPoll h + length ?ks] = [2, 3]"
    unfolding h by (simp add: upt_rec)
  with l have "List insertion_sort ?ks s h = ([2, 3], hl)"
    by (simp add: c After_def)
  with c ex_tie_inv show ?thesis by (simp add: st)
qed

text \<open>
  Claim C8, amended. In a well-formed memory, with \<open>ks\<close> the keys of the map in the order
  the loop visits them and \<^verbatim>\<open>sort.Slice\<close> meeting its contract, \<^verbatim>\<open>List\<close> returns new
  pointers, one for every stored poll, reading what the stored polls read, and leaves the
  existing records as they are. The result is ordered by creation time descending, polls
  of equal creation time in any order: strictly descending when the creation times are
  pairwise different. Its first element is a poll of the latest creation time.
\<close>

theorem List_newest_first:
  assumes "wf_heap h" and "wf_store s h" and "sort_Slice_spec srt"
    and "distinct ks" and "set ks = dom (polls s)" and "List srt ks s h = (rs, h')"
  shows "mset (map (deref h') rs) = mset (map (\<lambda>k. deref h (the (polls s k))) ks) \<and>
         distinct rs \<and> (\<forall>r\<in>set rs. nextPoll h \<le> r \<and> r < nextPoll h') \<and>
         (\<forall>q<nextPoll h. deref h' q = deref h q) \<and>
         sorted_wrt (\<lambda>a b. CreatedAt (pollAt h' b) \<le> CreatedAt (pollAt h' a)) rs \<and>
         (inj_on (\<lambda>k. CreatedAt (pollAt h (the (polls s k)))) (dom (polls s)) \<longrightarrow>
            sorted_wrt (\<lambda>a b. CreatedAt (pollAt h' b) < CreatedAt (pollAt h' a)) rs) \<and>
         (\<forall>k p. polls s k = Some p \<longrightarrow>
            rs \<noteq> [] \<and> CreatedAt (pollAt h p) \<le> CreatedAt (pollAt h' (hd rs)))"
proof -
  let ?C = "\<lambda>r. CreatedAt (pollAt h' r)"
  let ?lt = "\<lambda>a b. After (?C a) (?C b)"
  let ?n = "length ks"
  let ?ps = "[nextPoll h ..< nextPoll h + ?n]"
  have kk: "filter (\<lambda>k. polls s k \<noteq> None) ks = ks"
    using assms(5) by (auto simp: filter_id_conv)
  from List_result [OF assms(1,2), of srt ks] assms(6)
  have rs: "rs = srt ?lt ?ps" and np': "nextPoll h' = nextPoll h + ?n"
    and old: "\<forall>q<nextPoll h. deref h' q = deref h q"
    and new: "\<forall>j<?n. deref h' (nextPoll h + j) = deref h (the (polls s (ks ! j)))"
    unfolding kk by auto
  have perm: "mset rs = mset ?ps"
    using assms(3) by (simp add: rs sort_Slice_spec_def)
  have set_rs: "set rs = {nextPoll h ..< nextPoll h + ?n}"
    using assms(3) by (simp add: rs sort_Slice_set)
  have "map (deref h') ?ps = map (\<lambda>k. deref h (the (polls s k))) ks"
    by (rule nth_equalityI) (simp_all add: new)
  then have 1: "mset (map (deref h') rs) = mset (map (\<lambda>k. deref h (the (polls s k))) ks)"
    using perm by (metis mset_map)
  have 2: "distinct rs"
    using perm by (metis distinct_upt mset_eq_imp_distinct_iff)
  have 3: "\<forall>r\<in>set rs. nextPoll h \<le> r \<and> r < nextPoll h'"
    by (simp add: set_rs np')
  have "sorted_wrt (\<lambda>a b. \<not> ?lt b a) rs"
    using assms(3) strict_weak_order_After [of ?C] unfolding rs sort_Slice_spec_def by blast
  then have 4: "sorted_wrt (\<lambda>a b. ?C b \<le> ?C a) rs"
    by (simp add: After_def not_less)
  have C: "\<And>j. j < ?n \<Longrightarrow> ?C (nextPoll h + j) = CreatedAt (pollAt h (the (polls s (ks ! j))))"
    using new by (simp add: deref_eq_iff)
  have 5: "sorted_wrt (\<lambda>a b. ?C b < ?C a) rs"
    if inj: "inj_on (\<lambda>k. CreatedAt (pollAt h (the (polls s k)))) (dom (polls s))"
  proof -
    have "inj_on ?C (set rs)"
      unfolding set_rs
    proof (rule inj_onI)
      fix a b assume a: "a \<in> {nextPoll h ..< nextPoll h + ?n}"
        and b: "b \<in> {nextPoll h ..< nextPoll h + ?n}" and eq: "?C a = ?C b"
      define i j where "i = a - nextPoll h" and "j = b - nextPoll h"
      from a b have ij: "i < ?n" "j < ?n" "a = nextPoll h + i" "b = nextPoll h + j"
        by (auto simp: i_def j_def)
      from eq have "CreatedAt (pollAt h (the (polls s (ks ! i)))) =
                    CreatedAt (pollAt h (the (polls s (ks ! j))))"
        using C [OF ij(1)] C [OF ij(2)] by (simp add: ij)
      moreover have "ks ! i \<in> dom (polls s)" "ks ! j \<in> dom (polls s)"
        using ij(1,2) assms(5) by (metis nth_mem)+
      ultimately have "ks ! i = ks ! j"
        using inj by (auto dest: inj_onD)
      with assms(4) ij(1,2) have "i = j"
        by (simp add: nth_eq_iff_index_eq)
      then show "a = b" by (simp add: ij)
    qed
    from sorted_wrt_strict [OF 4 2 this] show ?thesis .
  qed
  have 6: "rs \<noteq> [] \<and> CreatedAt (pollAt h p) \<le> ?C (hd rs)" if kp: "polls s k = Some p" for k p
  proof -
    from kp assms(5) have "k \<in> set ks" by auto
    then obtain j where j: "j < ?n" "ks ! j = k" by (auto simp: in_set_conv_nth)
    then have in_rs: "nextPoll h + j \<in> set rs" by (simp add: set_rs)
    from sorted_wrt_hd [OF 4 in_rs] C [OF j(1)] j(2) kp
    have "CreatedAt (pollAt h p) \<le> ?C (hd rs)" by simp
    with in_rs show ?thesis by auto
  qed
  from 1 2 3 old 4 5 6 show ?thesis by blast
qed

theorem List_newest_first_witness:
  "wf_heap ex_heap \<and> wf_store ex_store ex_heap \<and>
   sort_Slice_spec (insertion_sort :: (nat \<Rightarrow> nat \<Rightarrow> bool) \<Rightarrow> nat list \<Rightarrow> nat list) \<and>
   distinct [''p1'', ''p2''] \<and> set [''p1'', ''p2''] = dom (polls ex_store) \<and>
   inj_on (\<lambda>k. CreatedAt (pollAt ex_heap (the (polls ex_store k)))) (dom (polls ex_store)) \<and>
   polls ex_store ''p1'' = Some 0 \<and>
   (\<exists>h'. List insertion_sort [''p1'', ''p2''] ex_store ex_heap = ([4, 3], h') \<and>
      deref h' 4 = deref ex_heap 1 \<and> deref h' 3 = deref ex_heap 0 \<and>
      mset (map (deref h') [4, 3]) =
        mset (map (\<lambda>k. deref ex_heap (the (polls ex_store k))) [''p1'', ''p2'']) \<and>
      sorted_wrt (\<lambda>a b. CreatedAt (pollAt h' b) < CreatedAt (pollAt h' a)) [4, 3] \<and>
      CreatedAt (pollAt ex_heap 0) \<le> CreatedAt (pollAt h' (hd [4, 3])))"
proof -
  have srt: "sort_Slice_spec (insertion_sort :: (nat \<Rightarrow> nat \<Rightarrow> bool) \<Rightarrow> nat list \<Rightarrow> nat list)"
    by (rule insertion_sort_spec)
  have ks: "distinct [''p1'', ''p2'']" "set [''p1'', ''p2''] = dom (polls ex_store)"
    by (auto simp: ex_store_def)
  have inj: "inj_on (\<lambda>k. CreatedAt (pollAt ex_heap (the (polls ex_store k)))) (dom (polls ex_store))"
    unfolding ks(2) [symmetric] by (simp add: ex_polls ex_pollAt ex_pollAt_Suc)
  from ex_List obtain h' where
    l: "List insertion_sort [''p1'', ''p2''] ex_store ex_heap = ([4, 3], h')"
    and d: "deref h' 3 = deref ex_heap 0" "deref h' 4 = deref ex_heap 1"
    by blast
  note c = List_newest_first [OF ex_wf_heap ex_wf_store srt ks l]
  from c have 1: "mset (map (deref h') [4, 3]) =
        mset (map (\<lambda>k. deref ex_heap (the (polls ex_store k))) [''p1'', ''p2''])"
    by blast
  from c inj have 2: "sorted_wrt (\<lambda>a b. CreatedAt (pollAt h' b) < CreatedAt (pollAt h' a)) [4, 3]"
    by blast
  from c ex_polls(1) have 3: "CreatedAt (pollAt ex_heap 0) \<le> CreatedAt (pollAt h' (hd [4, 3]))"
    by blast
  from ex_wf_heap ex_wf_store srt ks inj ex_polls(1) l d 1 2 3 show ?thesis by blast
qed

section \<open>Broadcasting\<close>

text \<open>
  Claim C5. In a registry whose registered channels are open and of capacity 10 (the
  invariant that \<^verbatim>\<open>Subscribe\<close> and a paired \<^verbatim>\<open>Unsubscribe\<close> keep), whatever the order \<open>ord\<close>
  in which the listeners of the key are visited: \<^verbatim>\<open>Broadcast\<close> returns without a panic; every
  listener of the key whose buffer holds fewer than 10 messages has \<open>data\<close> appended to its
  buffer; every other channel, the listeners with a full buffer among them, is left as it
  is; and for a key without listeners nothing changes. Two listeners subscribed to one key
  both receive the payload of one broadcast.
\<close>

theorem Broadcast_delivers:
  assumes "notifier_inv b cs" and "distinct ord" and "listeners b key \<subseteq> set ord"
  shows "\<exists>cs'. Broadcast ord b cs key data = (None, cs') \<and> nextChan cs' = nextChan cs \<and>
     (\<forall>c. chanAt cs' c =
        (if c \<in> listeners b key \<and> length (buf (chanAt cs c)) < 10
         then (chanAt cs c)\<lparr>buf := buf (chanAt cs c) @ [data]\<rparr> else chanAt cs c)) \<and>
     (listeners b key = {} \<longrightarrow> cs' = cs)"
proof (cases "subscribers b key")
  case None
  then show ?thesis by (simp add: Broadcast_def listeners_None)
next
  case (Some subs)
  let ?cl = "filter (\<lambda>c. subs c \<noteq> None) ord"
  have L: "listeners b key = dom subs" by (rule listeners_Some [OF Some])
  have set_cl: "set ?cl = listeners b key"
    using assms(3) unfolding L by auto
  have open_cap: "\<And>c. c \<in> listeners b key \<Longrightarrow> \<not> closed (chanAt cs c) \<and> cap (chanAt cs c) = 10"
    using assms(1) unfolding notifier_inv_def by blast
  have "distinct ?cl" "\<forall>c\<in>set ?cl. \<not> closed (chanAt cs c)"
    using assms(2) open_cap unfolding set_cl by simp_all
  from Broadcast_range_props [OF this, of data] obtain cs' where
    r: "Broadcast_range cs ?cl data = (None, cs')" and n: "nextChan cs' = nextChan cs"
    and a: "\<forall>c. chanAt cs' c =
        (if c \<in> set ?cl \<and> length (buf (chanAt cs c)) < cap (chanAt cs c)
         then (chanAt cs c)\<lparr>buf := buf (chanAt cs c) @ [data]\<rparr> else chanAt cs c)"
    by blast
  have b: "\<forall>c. chanAt cs' c =
        (if c \<in> listeners b key \<and> length (buf (chanAt cs c)) < 10
         then (chanAt cs c)\<lparr>buf := buf (chanAt cs c) @ [data]\<rparr> else chanAt cs c)"
    using a open_cap unfolding set_cl by auto
  have "cs' = cs" if "listeners b key = {}"
    using b n that by (intro chans_eqI) (simp_all add: fun_eq_iff)
  moreover have "Broadcast ord b cs key data = (None, cs')"
    using Some r by (simp add: Broadcast_def)
  ultimately show ?thesis using n b by blast
qed

theorem Broadcast_delivers_witness:
  "notifier_inv ex_broadcaster ex_chans \<and> distinct [1, 0 :: nat] \<and>
   listeners ex_broadcaster ''k'' \<subseteq> set [1, 0] \<and>
   length (buf (chanAt ex_chans 0)) = 10 \<and> buf (chanAt ex_chans 1) = [] \<and>
   (\<exists>cs'. Broadcast [1, 0] ex_broadcaster ex_chans ''k'' ''new'' = (None, cs') \<and>
      chanAt cs' 0 = chanAt ex_chans 0 \<and> buf (chanAt cs' 1) = [''new'']) \<and>
   listeners ex_broadcaster ''j'' = {} \<and>
   Broadcast [] ex_broadcaster ex_chans ''j'' ''new'' = (None, ex_chans) \<and>
   (\<exists>cs'. Broadcast [0, 1]
            (fst (snd (Subscribe (fst (snd (Subscribe NewBroadcaster no_chans ''k'')))
                         (snd (snd (Subscribe NewBroadcaster no_chans ''k''))) ''k'')))
            (snd (snd (Subscribe (fst (snd (Subscribe NewBroadcaster no_chans ''k'')))
                         (snd (snd (Subscribe NewBroadcaster no_chans ''k''))) ''k'')))
            ''k'' ''test'' = (None, cs') \<and>
      buf (chanAt cs' 0) = [''test''] \<and> buf (chanAt cs' 1) = [''test''] \<and>
      map_option fst (recv cs' 0) = Some ''test'' \<and> map_option fst (recv cs' 1) = Some ''test'')"
proof -
  have 1: "distinct [1, 0 :: nat]" "listeners ex_broadcaster ''k'' \<subseteq> set [1, 0]"
    by (simp_all add: ex_listeners)
  have 2: "length (buf (chanAt ex_chans 0)) = 10" "buf (chanAt ex_chans 1) = []"
    by (simp_all add: ex_chans_def)
  from Broadcast_delivers [OF ex_notifier_inv 1, of "''new''"] obtain cs' where
    b: "Broadcast [1, 0] ex_broadcaster ex_chans ''k'' ''new'' = (None, cs')"
    and c: "\<forall>c. chanAt cs' c =
        (if c \<in> listeners ex_broadcaster ''k'' \<and> length (buf (chanAt ex_chans c)) < 10
         then (chanAt ex_chans c)\<lparr>buf := buf (chanAt ex_chans c) @ [''new'']\<rparr>
         else chanAt ex_chans c)"
    by blast
  have "chanAt cs' 0 = chanAt ex_chans 0" "buf (chanAt cs' 1) = [''new'']"
    using c [rule_format, of 0] c [rule_format, of 1]
    by (simp_all add: ex_listeners 2 del: One_nat_def)
  with b have 3: "\<exists>cs'. Broadcast [1, 0] ex_broadcaster ex_chans ''k'' ''new'' = (None, cs') \<and>
      chanAt cs' 0 = chanAt ex_chans 0 \<and> buf (chanAt cs' 1) = [''new'']"
    by blast
  have 4: "listeners ex_broadcaster ''j'' = {}"
    by (simp add: listeners_def ex_broadcaster_def)
  from Broadcast_delivers [OF ex_notifier_inv, of "[]" "''j''" "''new''"] 4
  have 5: "Broadcast [] ex_broadcaster ex_chans ''j'' ''new'' = (None, ex_chans)"
    by auto
  define b1 cs1 where "b1 = fst (snd (Subscribe NewBroadcaster no_chans ''k''))"
    and "cs1 = snd (snd (Subscribe NewBroadcaster no_chans ''k''))"
  define b2 cs2 where "b2 = fst (snd (Subscribe b1 cs1 ''k''))"
    and "cs2 = snd (snd (Subscribe b1 cs1 ''k''))"
  have inv2: "notifier_inv b2 cs2"
    unfolding b2_def cs2_def b1_def cs1_def
    by (intro Subscribe_inv NewBroadcaster_inv)
  have n1: "nextChan cs1 = 1" "listeners b1 ''k'' = {0}"
    by (simp_all add: cs1_def b1_def Subscribe_listeners)
       (simp_all add: Subscribe_eq no_chans_def listeners_def NewBroadcaster_def)
  have l2: "listeners b2 ''k'' = {0, 1}"
    by (auto simp: b2_def Subscribe_listeners n1)
  have e2: "buf (chanAt cs2 0) = []" "buf (chanAt cs2 1) = []"
    by (simp_all add: cs2_def Subscribe_eq n1) (simp_all add: cs1_def Subscribe_eq no_chans_def)
  have "distinct [0, 1 :: nat]" "listeners b2 ''k'' \<subseteq> set [0, 1]"
    by (simp_all add: l2)
  from Broadcast_delivers [OF inv2 this, of "''test''"] obtain cs'' where
    b': "Broadcast [0, 1] b2 cs2 ''k'' ''test'' = (None, cs'')"
    and c': "\<forall>c. chanAt cs'' c =
        (if c \<in> listeners b2 ''k'' \<and> length (buf (chanAt cs2 c)) < 10
         then (chanAt cs2 c)\<lparr>buf := buf (chanAt cs2 c) @ [''test'']\<rparr> else chanAt cs2 c)"
    by blast
  have bufs: "buf (chanAt cs'' 0) = [''test'']" "buf (chanAt cs'' 1) = [''test'']"
    using c' [rule_format, of 0] c' [rule_format, of 1]
    by (simp_all add: l2 e2 del: One_nat_def)
  then have "map_option fst (recv cs'' 0) = Some ''test''" "map_option fst (recv cs'' 1) = Some ''test''"
    by (simp_all add: recv_def)
  with b' bufs have 6: "\<exists>cs'. Broadcast [0, 1] b2 cs2 ''k'' ''test'' = (None, cs') \<and>
      buf (chanAt cs' 0) = [''test''] \<and> buf (chanAt cs' 1) = [''test''] \<and>
      map_option fst (recv cs' 0) = Some ''test'' \<and> map_option fst (recv cs' 1) = Some ''test''"
    by blast
  from ex_notifier_inv 1 2 3 4 5 6 [unfolded b2_def cs2_def b1_def cs1_def]
  show ?thesis by blast
qed

section \<open>Unsubscribing\<close>

text \<open>
  Claim C4, as stated, fails: \<^verbatim>\<open>Unsubscribe\<close> closes the channel whenever the key has an
  entry, whether or not the handle is registered. After \<^verbatim>\<open>Subscribe\<close> and \<^verbatim>\<open>Unsubscribe\<close>
  of one listener the key keeps its entry with an empty listener set, and a second
  \<^verbatim>\<open>Unsubscribe\<close> of the same handle panics with a close of a closed channel. With a
  handle that the key does not know (channel 7 in the example registry) the call is not a
  no-op either: it closes that channel.
\<close>

theorem Unsubscribe_twice_panics:
  "fst ex_subscribed = 0 \<and> listeners (fst (snd ex_subscribed)) ''k'' = {0} \<and>
   fst ex_unsubscribed = None \<and> listeners (fst (snd ex_unsubscribed)) ''k'' = {} \<and>
   fst (Unsubscribe (fst (snd ex_unsubscribed)) (snd (snd ex_unsubscribed)) ''k'' (Some 0)) =
     Some CloseOfClosedChannel \<and>
   fst (Unsubscribe ex_broadcaster ex_chans ''k'' (Some 7)) = None \<and>
   snd (snd (Unsubscribe ex_broadcaster ex_chans ''k'' (Some 7))) \<noteq> ex_chans"
proof -
  have "closed (chanAt (snd (snd (Unsubscribe ex_broadcaster ex_chans ''k'' (Some 7)))) 7)"
    "\<not> closed (chanAt ex_chans 7)"
    by (simp_all add: Unsubscribe_def close_chan_def ex_broadcaster_def ex_chans_def)
  then have "snd (snd (Unsubscribe ex_broadcaster ex_chans ''k'' (Some 7))) \<noteq> ex_chans"
    by metis
  moreover have "fst (Unsubscribe ex_broadcaster ex_chans ''k'' (Some 7)) = None"
    by (simp add: Unsubscribe_def close_chan_def ex_broadcaster_def ex_chans_def)
  ultimately show ?thesis
    by (simp add: ex_subscribed_eq ex_unsubscribed_eq Unsubscribe_def close_chan_def listeners_def)
qed

text \<open>
  Claim C4, amended. When the key has no entry in the registry, \<^verbatim>\<open>Unsubscribe\<close> is a
  no-op. When the key has an entry and the handle's channel is open, it removes the handle
  from the listener set of that key (from no other), closes the channel and changes
  nothing else. When the key has an entry and the channel is closed already, or the
  handle is nil, it panics.
\<close>

theorem Unsubscribe_effect:
  "(subscribers b key = None \<longrightarrow> Unsubscribe b cs key ch = (None, b, cs)) \<and>
   (\<forall>subs c. subscribers b key = Some subs \<and> ch = Some c \<and> \<not> closed (chanAt cs c) \<longrightarrow>
      (\<exists>b' cs'. Unsubscribe b cs key ch = (None, b', cs') \<and>
         listeners b' key = listeners b key - {c} \<and>
         (\<forall>k. k \<noteq> key \<longrightarrow> listeners b' k = listeners b k) \<and>
         chanAt cs' c = (chanAt cs c)\<lparr>closed := True\<rparr> \<and>
         (\<forall>d. d \<noteq> c \<longrightarrow> chanAt cs' d = chanAt cs d) \<and> nextChan cs' = nextChan cs)) \<and>
   (\<forall>subs c. subscribers b key = Some subs \<and> ch = Some c \<and> closed (chanAt cs c) \<longrightarrow>
      fst (Unsubscribe b cs key ch) = Some CloseOfClosedChannel) \<and>
   (\<forall>subs. subscribers b key = Some subs \<and> ch = None \<longrightarrow>
      fst (Unsubscribe b cs key ch) = Some CloseOfNilChannel)"
proof (intro conjI allI impI)
  assume "subscribers b key = None"
  then show "Unsubscribe b cs key ch = (None, b, cs)"
    by (simp add: Unsubscribe_def)
next
  fix subs c
  assume a: "subscribers b key = Some subs \<and> ch = Some c \<and> \<not> closed (chanAt cs c)"
  let ?b = "b\<lparr>subscribers := (subscribers b)(key \<mapsto> subs(c := None))\<rparr>"
  let ?cs = "cs\<lparr>chanAt := (chanAt cs)(c := (chanAt cs c)\<lparr>closed := True\<rparr>)\<rparr>"
  have "Unsubscribe b cs key ch = (None, ?b, ?cs)"
    using a Unsubscribe_open [of b key subs cs c] by simp
  moreover have "listeners ?b key = listeners b key - {c}"
    using a by (auto simp: listeners_def split: if_splits)
  moreover have "\<forall>k. k \<noteq> key \<longrightarrow> listeners ?b k = listeners b k"
    by (simp add: listeners_def)
  ultimately show "\<exists>b' cs'. Unsubscribe b cs key ch = (None, b', cs') \<and>
         listeners b' key = listeners b key - {c} \<and>
         (\<forall>k. k \<noteq> key \<longrightarrow> listeners b' k = listeners b k) \<and>
         chanAt cs' c = (chanAt cs c)\<lparr>closed := True\<rparr> \<and>
         (\<forall>d. d \<noteq> c \<longrightarrow> chanAt cs' d = chanAt cs d) \<and> nextChan cs' = nextChan cs"
    by (intro exI [of _ ?b] exI [of _ ?cs]) simp
next
  fix subs c
  assume "subscribers b key = Some subs \<and> ch = Some c \<and> closed (chanAt cs c)"
  then show "fst (Unsubscribe b cs key ch) = Some CloseOfClosedChannel"
    by (simp add: Unsubscribe_def close_chan_def)
next
  fix subs
  assume "subscribers b key = Some subs \<and> ch = None"
  then show "fst (Unsubscribe b cs key ch) = Some CloseOfNilChannel"
    by (simp add: Unsubscribe_def close_chan_def)
qed

theorem Unsubscribe_effect_witness:
  "subscribers ex_broadcaster ''j'' = None \<and>
   Unsubscribe ex_broadcaster ex_chans ''j'' (Some 1) = (None, ex_broadcaster, ex_chans) \<and>
   subscribers ex_broadcaster ''k'' = Some [0 \<mapsto> True, 1 \<mapsto> True] \<and>
   \<not> closed (chanAt ex_chans 1) \<and>
   (\<exists>b' cs'. Unsubscribe ex_broadcaster ex_chans ''k'' (Some 1) = (None, b', cs') \<and>
      listeners b' ''k'' = {0} \<and> closed (chanAt cs' 1) \<and> chanAt cs' 0 = chanAt ex_chans 0) \<and>
   subscribers (fst (snd ex_unsubscribed)) ''k'' = Some Map.empty \<and>
   closed (chanAt (snd (snd ex_unsubscribed)) 0) \<and>
   fst (Unsubscribe (fst (snd ex_unsubscribed)) (snd (snd ex_unsubscribed)) ''k'' (Some 0)) =
     Some CloseOfClosedChannel \<and>
   fst (Unsubscribe ex_broadcaster ex_chans ''k'' None) = Some CloseOfNilChannel"
proof -
  have 1: "subscribers ex_broadcaster ''j'' = None"
    "subscribers ex_broadcaster ''k'' = Some [0 \<mapsto> True, 1 \<mapsto> True]"
    by (simp_all add: ex_broadcaster_def)
  have 2: "\<not> closed (chanAt ex_chans 1)"
    by (simp add: ex_chans_def)
  have 3: "subscribers (fst (snd ex_unsubscribed)) ''k'' = Some Map.empty"
    "closed (chanAt (snd (snd ex_unsubscribed)) 0)"
    by (simp_all add: ex_unsubscribed_eq)
  note t1 = Unsubscribe_effect [of ex_broadcaster "''j''" ex_chans "Some 1"]
  note t2 = Unsubscribe_effect [of ex_broadcaster "''k''" ex_chans "Some 1"]
  note t3 = Unsubscribe_effect [of "fst (snd ex_unsubscribed)" "''k''" "snd (snd ex_unsubscribed)" "Some 0"]
  note t4 = Unsubscribe_effect [of ex_broadcaster "''k''" ex_chans None]
  from t1 1(1) have a: "Unsubscribe ex_broadcaster ex_chans ''j'' (Some 1) = (None, ex_broadcaster, ex_chans)"
    by blast
  from t2 1(2) 2 obtain b' cs' where
    u: "Unsubscribe ex_broadcaster ex_chans ''k'' (Some 1) = (None, b', cs')"
    and l: "listeners b' ''k'' = listeners ex_broadcaster ''k'' - {1}"
    and c: "chanAt cs' 1 = (chanAt ex_chans 1)\<lparr>closed := True\<rparr>"
    and o: "\<forall>d. d \<noteq> 1 \<longrightarrow> chanAt cs' d = chanAt ex_chans d"
    by blast
  have "listeners b' ''k'' = {0}" "closed (chanAt cs' 1)" "chanAt cs' 0 = chanAt ex_chans 0"
    using l c o by (auto simp: ex_listeners)
  with u have b: "\<exists>b' cs'. Unsubscribe ex_broadcaster ex_chans ''k'' (Some 1) = (None, b', cs') \<and>
      listeners b' ''k'' = {0} \<and> closed (chanAt cs' 1) \<and> chanAt cs' 0 = chanAt ex_chans 0"
    by blast
  from t3 3 have d: "fst (Unsubscribe (fst (snd ex_unsubscribed)) (snd (snd ex_unsubscribed)) ''k'' (Some 0)) =
     Some CloseOfClosedChannel"
    by blast
  from t4 1(2) have e: "fst (Unsubscribe ex_broadcaster ex_chans ''k'' None) = Some CloseOfNilChannel"
    by blast
  from 1 2 3 a b d e show ?thesis by blast
qed

section \<open>Percentages\<close>

text \<open>
  Claim C9. \<^verbatim>\<open>VotePercentage\<close> is 0 when the total of the poll is 0. When the counters
  are not negative, the identifiers of the options differ and the total is positive and in
  the range of \<^verbatim>\<open>int\<close>, the percentage of each option is the \<^verbatim>\<open>float64\<close> quotient of its
  votes and the total, times 100: it differs from the exact value \<open>100 * votes / total\<close>
  by at most five unit roundoffs of that value, and the percentages of all options sum to
  100 within \<open>500 * 2^-53\<close>. For the options \<open>a\<close> with 25 and \<open>b\<close> with 75 votes the
  percentages are the numbers 25 and 75, without any rounding error.
\<close>

theorem VotePercentage_props:
  "(TotalVotes h p = 0 \<longrightarrow> VotePercentage h p optionID = 0) \<and>
   ((\<forall>opt\<in>set (options_of h p). 0 \<le> sint (Votes opt)) \<and>
    distinct (map Option.ID (options_of h p)) \<and>
    0 < (\<Sum>opt\<leftarrow>options_of h p. sint (Votes opt)) \<and>
    (\<Sum>opt\<leftarrow>options_of h p. sint (Votes opt)) < 2 ^ 63 \<longrightarrow>
      (\<forall>opt\<in>set (options_of h p).
         VotePercentage h p (Option.ID opt) =
           float64_mul (float64_div (float64_of_int (Votes opt))
             (float64_of_int (TotalVotes h p))) 100 \<and>
         \<bar>VotePercentage h p (Option.ID opt)
            - real_of_int (sint (Votes opt)) / real_of_int (sint (TotalVotes h p)) * 100\<bar>
           \<le> 5 * unit_roundoff
               * (real_of_int (sint (Votes opt)) / real_of_int (sint (TotalVotes h p)) * 100)) \<and>
      sint (TotalVotes h p) = (\<Sum>opt\<leftarrow>options_of h p. sint (Votes opt)) \<and>
      \<bar>(\<Sum>opt\<leftarrow>options_of h p. VotePercentage h p (Option.ID opt)) - 100\<bar>
        \<le> 500 * unit_roundoff) \<and>
   (map (\<lambda>opt. (Option.ID opt, Votes opt)) (options_of h p) = [(''a'', 25), (''b'', 75)] \<longrightarrow>
      VotePercentage h p ''a'' = 25 \<and> VotePercentage h p ''b'' = 75)"
proof (intro conjI impI)
  assume "TotalVotes h p = 0"
  then show "VotePercentage h p optionID = 0"
    by (simp add: VotePercentage_def)
next
  let ?opts = "options_of h p"
  let ?T = "\<Sum>opt\<leftarrow>?opts. sint (Votes opt)"
  assume a: "(\<forall>opt\<in>set ?opts. 0 \<le> sint (Votes opt)) \<and> distinct (map Option.ID ?opts) \<and>
    0 < ?T \<and> ?T < 2 ^ 63"
  have T: "sint (TotalVotes h p) = ?T"
    using a by (intro TotalVotes_sint) simp_all
  then have tot0: "TotalVotes h p \<noteq> 0" using a by auto
  have each: "VotePercentage h p (Option.ID opt) =
           float64_mul (float64_div (float64_of_int (Votes opt))
             (float64_of_int (TotalVotes h p))) 100 \<and>
         \<bar>VotePercentage h p (Option.ID opt)
            - real_of_int (sint (Votes opt)) / real_of_int (sint (TotalVotes h p)) * 100\<bar>
           \<le> 5 * unit_roundoff
               * (real_of_int (sint (Votes opt)) / real_of_int (sint (TotalVotes h p)) * 100)"
    if opt: "opt \<in> set ?opts" for opt
  proof -
    have eq: "VotePercentage h p (Option.ID opt) =
           float64_mul (float64_div (float64_of_int (Votes opt))
             (float64_of_int (TotalVotes h p))) 100"
      using VotePercentage_loop_distinct [of ?opts opt "TotalVotes h p"] a opt tot0
      by (simp add: VotePercentage_def options_of_def)
    have t0: "real_of_int (sint (TotalVotes h p)) \<noteq> 0"
      using T a by (simp del: of_int_sint)
    have "0 \<le> real_of_int (sint (Votes opt))" "0 < real_of_int (sint (TotalVotes h p))"
      using a opt T by (simp_all del: of_int_sint)
    then have nonneg: "0 \<le> real_of_int (sint (Votes opt)) / real_of_int (sint (TotalVotes h p)) * 100"
      by simp
    define X where "X = real_of_int (sint (Votes opt)) / real_of_int (sint (TotalVotes h p)) * 100"
    define R where "R = float64_mul (float64_div (float64_of_int (Votes opt))
             (float64_of_int (TotalVotes h p))) 100"
    have "rel_err X R (5 * unit_roundoff)"
      unfolding X_def R_def float64_of_int_def by (rule percentage_error [OF t0])
    then have "\<bar>R - X\<bar> \<le> 5 * unit_roundoff * \<bar>X\<bar>"
      by (simp add: rel_err_def)
    moreover have "0 \<le> X" using nonneg by (simp only: X_def)
    ultimately have "\<bar>R - X\<bar> \<le> 5 * unit_roundoff * X" by simp
    then show ?thesis
      unfolding eq R_def [symmetric] X_def [symmetric] by simp
  qed
  then show "\<forall>opt\<in>set ?opts.
         VotePercentage h p (Option.ID opt) =
           float64_mul (float64_div (float64_of_int (Votes opt))
             (float64_of_int (TotalVotes h p))) 100 \<and>
         \<bar>VotePercentage h p (Option.ID opt)
            - real_of_int (sint (Votes opt)) / real_of_int (sint (TotalVotes h p)) * 100\<bar>
           \<le> 5 * unit_roundoff
               * (real_of_int (sint (Votes opt)) / real_of_int (sint (TotalVotes h p)) * 100)"
    by blast
  show "sint (TotalVotes h p) = ?T" by (rule T)
  let ?g = "\<lambda>opt. real_of_int (sint (Votes opt)) / real_of_int (sint (TotalVotes h p)) * 100"
  have "(\<Sum>opt\<leftarrow>?opts. ?g opt) = (\<Sum>opt\<leftarrow>?opts. real_of_int (sint (Votes opt))) * (100 / real_of_int ?T)"
    unfolding sum_list_mult_const [symmetric] by (simp add: T del: of_int_sint)
  also have "(\<Sum>opt\<leftarrow>?opts. real_of_int (sint (Votes opt))) = real_of_int ?T"
    by (rule real_sum_list_sint)
  finally have exact: "(\<Sum>opt\<leftarrow>?opts. ?g opt) = 100"
    using a by (simp del: of_int_sint)
  have "\<bar>(\<Sum>opt\<leftarrow>?opts. VotePercentage h p (Option.ID opt)) - (\<Sum>opt\<leftarrow>?opts. ?g opt)\<bar>
        \<le> 5 * unit_roundoff * (\<Sum>opt\<leftarrow>?opts. ?g opt)"
    by (rule sum_list_abs_diff) (use each in blast)
  then show "\<bar>(\<Sum>opt\<leftarrow>?opts. VotePercentage h p (Option.ID opt)) - 100\<bar> \<le> 500 * unit_roundoff"
    by (simp only: exact)
next
  assume a: "map (\<lambda>opt. (Option.ID opt, Votes opt)) (options_of h p) = [(''a'', 25), (''b'', 75)]"
  then obtain oa ob where o: "options_of h p = [oa, ob]" "Option.ID oa = ''a''" "Votes oa = 25"
    "Option.ID ob = ''b''" "Votes ob = 75"
    by auto
  have tot: "TotalVotes h p = 100"
    using o by (simp add: TotalVotes_def TotalVotes_loop_sum options_of_def)
  have f: "float64 25 = 25" "float64 75 = 75" "float64 100 = 100"
    "float64 (1 / 4) = 1 / 4" "float64 (3 / 4) = 3 / 4"
    using float64_exact [of 25 0] float64_exact [of 75 0] float64_exact [of 100 0]
      float64_exact [of 1 "-2"] float64_exact [of 3 "-2"]
    by (simp_all add: powr_minus inverse_eq_divide)
  show "VotePercentage h p ''a'' = 25"
    using o tot
    by (simp add: VotePercentage_def options_of_def float64_of_int_def float64_div_def
        float64_mul_def f)
  show "VotePercentage h p ''b'' = 75"
    using o tot
    by (simp add: VotePercentage_def options_of_def float64_of_int_def float64_div_def
        float64_mul_def f)
qed

theorem VotePercentage_props_witness:
  "TotalVotes ex_heap 2 = 0 \<and> VotePercentage ex_heap 2 ''v'' = 0 \<and>
   list_all (\<lambda>opt. 0 \<le> sint (Votes opt)) (options_of ex_heap 0) \<and>
   distinct (map Option.ID (options_of ex_heap 0)) \<and>
   (\<Sum>opt\<leftarrow>options_of ex_heap 0. sint (Votes opt)) = 100 \<and>
   sint (TotalVotes ex_heap 0) = 100 \<and>
   \<bar>(\<Sum>opt\<leftarrow>options_of ex_heap 0. VotePercentage ex_heap 0 (Option.ID opt)) - 100\<bar>
     \<le> 500 * unit_roundoff \<and>
   map (\<lambda>opt. (Option.ID opt, Votes opt)) (options_of ex_heap 0) = [(''a'', 25), (''b'', 75)] \<and>
   VotePercentage ex_heap 0 ''a'' = 25 \<and> VotePercentage ex_heap 0 ''b'' = 75"
proof -
  have 1: "TotalVotes ex_heap 2 = 0"
    using ex_options_2 by (simp add: TotalVotes_def options_of_def)
  have 2: "list_all (\<lambda>opt. 0 \<le> sint (Votes opt)) (options_of ex_heap 0)"
    "distinct (map Option.ID (options_of ex_heap 0))"
    "(\<Sum>opt\<leftarrow>options_of ex_heap 0. sint (Votes opt)) = 100"
    "map (\<lambda>opt. (Option.ID opt, Votes opt)) (options_of ex_heap 0) = [(''a'', 25), (''b'', 75)]"
    by (simp_all add: ex_options_0)
  have 3: "\<forall>opt\<in>set (options_of ex_heap 0). 0 \<le> sint (Votes opt)"
    using 2(1) by (simp add: list_all_iff)
  have 4: "0 < (\<Sum>opt\<leftarrow>options_of ex_heap 0. sint (Votes opt))"
    "(\<Sum>opt\<leftarrow>options_of ex_heap 0. sint (Votes opt)) < 2 ^ 63"
    by (simp_all add: 2(3))
  note a = VotePercentage_props [of ex_heap 2 "''v''"]
  note b = VotePercentage_props [of ex_heap 0]
  have 5: "VotePercentage ex_heap 2 ''v'' = 0"
    by (rule a [THEN conjunct1, THEN mp, OF 1])
  have hyp: "(\<forall>opt\<in>set (options_of ex_heap 0). 0 \<le> sint (Votes opt)) \<and>
    distinct (map Option.ID (options_of ex_heap 0)) \<and>
    0 < (\<Sum>opt\<leftarrow>options_of ex_heap 0. sint (Votes opt)) \<and>
    (\<Sum>opt\<leftarrow>options_of ex_heap 0. sint (Votes opt)) < 2 ^ 63"
    using 3 2(2) 4 by (intro conjI)
  note c = b [THEN conjunct2, THEN conjunct1, THEN mp, OF hyp]
  have 6: "sint (TotalVotes ex_heap 0) = (\<Sum>opt\<leftarrow>options_of ex_heap 0. sint (Votes opt))"
    "\<bar>(\<Sum>opt\<leftarrow>options_of ex_heap 0. VotePercentage ex_heap 0 (Option.ID opt)) - 100\<bar>
     \<le> 500 * unit_roundoff"
    using c by (rule conjunct2 [THEN conjunct1], rule conjunct2 [THEN conjunct2])
  note d = b [THEN conjunct2, THEN conjunct2, THEN mp, OF 2(4)]
  have 7: "VotePercentage ex_heap 0 ''a'' = 25" "VotePercentage ex_heap 0 ''b'' = 75"
    using d by (rule conjunct1, rule conjunct2)
  from 1 5 2 6 7 show ?thesis by (simp only: 2(3))
qed

section \<open>Concurrent votes\<close>

text \<open>
  Claim C1. \<open>N\<close> calls of \<^verbatim>\<open>Vote\<close> run concurrently for the same option of a stored poll
  that is not expired at the time any of them reads the clock. Every call takes the lock
  \<^verbatim>\<open>mu\<close>, reads the counter, writes the counter plus one, copies the poll and releases the
  lock; the schedule \<open>sched\<close> interleaves the steps of the calls in any order. When all \<open>N\<close>
  calls have returned, the counter of the first option with the identifier \<open>optionID\<close> is
  its initial value plus \<open>N\<close> (in 64-bit arithmetic, and as integers when the sum stays
  below \<open>2 ^ 63\<close>), the other options and the fields of the poll are unchanged, all calls
  have succeeded, the lock is free and the map of the store is the same.
\<close>

theorem concurrent_votes:
  assumes "wf_heap h0" and "wf_store s h0" and "polls s pollID = Some p"
    and "i < length (options_of h0 p)" and "Option.ID (options_of h0 p ! i) = optionID"
    and "\<forall>j<i. Option.ID (options_of h0 p ! j) \<noteq> optionID"
    and "\<forall>t<N. \<not> IsExpired (now t) h0 p"
    and "set sched \<subseteq> {..<N}"
    and "\<forall>t<N. \<exists>res. calls (exec now pollID optionID sched (init_config s h0)) t = Returned res"
  shows "options_of (mem (exec now pollID optionID sched (init_config s h0))) p =
           (options_of h0 p)[i := (options_of h0 p ! i)
              \<lparr>Votes := Votes (options_of h0 p ! i) + of_nat N\<rparr>] \<and>
         (sint (Votes (options_of h0 p ! i)) + int N < 2 ^ 63 \<longrightarrow>
            sint (Votes (options_of (mem (exec now pollID optionID sched (init_config s h0))) p ! i)) =
            sint (Votes (options_of h0 p ! i)) + int N) \<and>
         (\<forall>t<N. \<exists>r. calls (exec now pollID optionID sched (init_config s h0)) t = Returned (Inr r)) \<and>
         mu (exec now pollID optionID sched (init_config s h0)) = None \<and>
         store (exec now pollID optionID sched (init_config s h0)) = s \<and>
         pollAt (mem (exec now pollID optionID sched (init_config s h0))) p = pollAt h0 p"
proof -
  define c where "c = exec now pollID optionID sched (init_config s h0)"
  let ?old = "options_of h0 p"
  have p: "p < nextPoll h0" by (rule wf_storeD [OF assms(2,3)])
  have "vote_inv N s h0 p i c"
    unfolding c_def
    by (rule exec_inv [OF init_vote_inv [OF assms(1) p assms(4)] assms(8) assms(3-7)])
  then have st: "store c = s" and pa: "pollAt (mem c) p = pollAt h0 p"
    and opts: "options_of (mem c) p =
        ?old[i := (?old ! i)\<lparr>Votes := Votes (?old ! i) + of_nat (stored_count N (calls c))\<rparr>]"
    and out: "\<And>u. N \<le> u \<Longrightarrow> calls c u = Idle"
    and lock: "case mu c of None \<Rightarrow> \<forall>u. quiet (calls c u)
               | Some u \<Rightarrow> \<not> quiet (calls c u) \<and> (\<forall>u'. u' \<noteq> u \<longrightarrow> quiet (calls c u'))"
    and res: "\<And>u res. calls c u = Stored res \<or> calls c u = Returned res \<Longrightarrow> \<exists>r. res = Inr r"
    unfolding vote_inv_def by blast+
  have ret: "\<And>t. t < N \<Longrightarrow> \<exists>res. calls c t = Returned res"
    using assms(9) by (simp add: c_def)
  have "\<forall>t<N. finished (calls c t)"
    using ret by (auto simp: finished_cases)
  then have k: "stored_count N (calls c) = N" by (rule stored_count_all)
  have 1: "options_of (mem c) p = ?old[i := (?old ! i)\<lparr>Votes := Votes (?old ! i) + of_nat N\<rparr>]"
    using opts by (simp only: k)
  have 2: "sint (Votes (options_of (mem c) p ! i)) = sint (Votes (?old ! i)) + int N"
    if "sint (Votes (?old ! i)) + int N < 2 ^ 63"
    using sint_add_of_nat [OF that] assms(4) by (simp add: 1)
  have 3: "\<forall>t<N. \<exists>r. calls c t = Returned (Inr r)"
  proof (intro allI impI)
    fix t assume "t < N"
    from ret [OF this] obtain x where x: "calls c t = Returned x" by blast
    with res [of t x] show "\<exists>r. calls c t = Returned (Inr r)" by auto
  qed
  have q: "quiet (calls c u)" for u
  proof (cases "u < N")
    case True
    from ret [OF this] show ?thesis by auto
  next
    case False
    with out [of u] show ?thesis by simp
  qed
  have 4: "mu c = None"
  proof (cases "mu c")
    case (Some u)
    with lock q [of u] show ?thesis by simp
  qed simp
  from 1 2 3 4 st pa show ?thesis unfolding c_def by blast
qed

theorem concurrent_votes_witness:
  "wf_heap ex_heap \<and> wf_store ex_store ex_heap \<and> polls ex_store ''p1'' = Some 0 \<and>
   1 < length (options_of ex_heap 0) \<and> Option.ID (options_of ex_heap 0 ! 1) = ''b'' \<and>
   Option.ID (options_of ex_heap 0 ! 0) \<noteq> ''b'' \<and> \<not> IsExpired 40 ex_heap 0 \<and>
   set [0, 1, 0, 0, 0, 1, 1, 1, 1] \<subseteq> {..<2::nat} \<and>
   (\<exists>res. calls (exec (\<lambda>_. 40) ''p1'' ''b'' [0, 1, 0, 0, 0, 1, 1, 1, 1]
      (init_config ex_store ex_heap)) 0 = Returned res) \<and>
   (\<exists>res. calls (exec (\<lambda>_. 40) ''p1'' ''b'' [0, 1, 0, 0, 0, 1, 1, 1, 1]
      (init_config ex_store ex_heap)) 1 = Returned res) \<and>
   options_of (mem (exec (\<lambda>_. 40) ''p1'' ''b'' [0, 1, 0, 0, 0, 1, 1, 1, 1]
      (init_config ex_store ex_heap))) 0 =
     [\<lparr>Option.ID = ''a'', Text = ''Tabs'', Votes = 25\<rparr>,
      \<lparr>Option.ID = ''b'', Text = ''Spaces'', Votes = 77\<rparr>] \<and>
   mu (exec (\<lambda>_. 40) ''p1'' ''b'' [0, 1, 0, 0, 0, 1, 1, 1, 1]
      (init_config ex_store ex_heap)) = None"
proof -
  let ?now = "\<lambda>_::nat. 40::Time"
  let ?sched = "[0, 1, 0, 0, 0, 1, 1, 1, 1] :: nat list"
  define c1 where "c1 = (init_config ex_store ex_heap)\<lparr>mu := Some 0, calls := (\<lambda>_. Idle)(0 := Holding)\<rparr>"
  define c where "c = exec ?now ''p1'' ''b'' ?sched (init_config ex_store ex_heap)"
  have s1: "call_step ?now ''p1'' ''b'' 0 (init_config ex_store ex_heap) = c1"
    by (simp add: call_step_def init_config_def c1_def)
  have s2: "call_step ?now ''p1'' ''b'' 1 c1 = c1"
    by (rule call_step_blocked [of _ _ 0]) (simp_all add: c1_def)
  obtain res h' where s3: "exec ?now ''p1'' ''b'' [0, 0, 0] c1 =
      c1\<lparr>mu := None, mem := h', calls := (calls c1)(0 := Returned res)\<rparr>"
    using call_holding [of c1 0 ?now "''p1''" "''b''"] by (auto simp: c1_def)
  define c3 where "c3 = c1\<lparr>mu := None, mem := h', calls := (calls c1)(0 := Returned res)\<rparr>"
  have s4: "exec ?now ''p1'' ''b'' [1, 1, 1, 1] c3 =
      (case Vote (?now 1) (store c3) (mem c3) ''p1'' ''b'' of
         (res, s', h') \<Rightarrow> c3\<lparr>mem := h', calls := (calls c3)(1 := Returned res)\<rparr>)"
    by (rule call_alone) (simp_all add: c3_def c1_def)
  have "c = exec ?now ''p1'' ''b'' [0, 0, 0, 1, 1, 1, 1] c1"
    unfolding c_def by (simp only: exec.simps s1 s2)
  also have "\<dots> = exec ?now ''p1'' ''b'' ([0, 0, 0] @ [1, 1, 1, 1]) c1"
    by (simp only: append.simps)
  also have "\<dots> = exec ?now ''p1'' ''b'' [1, 1, 1, 1] c3"
    by (simp only: exec_append s3 c3_def)
  finally have ceq: "c = (case Vote 40 (store c3) (mem c3) ''p1'' ''b'' of
         (res, s', h') \<Rightarrow> c3\<lparr>mem := h', calls := (calls c3)(1 := Returned res)\<rparr>)"
    by (simp only: s4)
  have r0: "\<exists>res. calls c 0 = Returned res"
    by (simp add: ceq c3_def split: prod.split)
  have r1: "\<exists>res. calls c 1 = Returned res"
    by (simp add: ceq split: prod.split)
  have 1: "polls ex_store ''p1'' = Some 0" by (simp add: ex_store_def)
  have 2: "1 < length (options_of ex_heap 0)" by (simp add: ex_options_0)
  have 3: "Option.ID (options_of ex_heap 0 ! 1) = ''b''" by (simp add: ex_options_0)
  have 4: "Option.ID (options_of ex_heap 0 ! 0) \<noteq> ''b''" by (simp add: ex_options_0)
  have j: "\<forall>j<1. Option.ID (options_of ex_heap 0 ! j) \<noteq> ''b''" using 4 by simp
  have 5: "\<forall>t<2. \<not> IsExpired (?now t) ex_heap 0" using ex_not_expired by simp
  have 6: "set ?sched \<subseteq> {..<2::nat}" by simp
  have 7: "\<forall>t<2. \<exists>res. calls (exec ?now ''p1'' ''b'' ?sched (init_config ex_store ex_heap)) t
             = Returned res"
    using r0 r1 unfolding c_def by (simp add: less_Suc_eq numeral_2_eq_2)
  from concurrent_votes [OF ex_wf_heap ex_wf_store 1 2 3 j 5 6 7]
  have "options_of (mem c) 0 =
          (options_of ex_heap 0)[1 := (options_of ex_heap 0 ! 1)
              \<lparr>Votes := Votes (options_of ex_heap 0 ! 1) + of_nat 2\<rparr>]"
    and m: "mu c = None"
    unfolding c_def by blast+
  then have 8: "options_of (mem c) 0 =
     [\<lparr>Option.ID = ''a'', Text = ''Tabs'', Votes = 25\<rparr>,
      \<lparr>Option.ID = ''b'', Text = ''Spaces'', Votes = 77\<rparr>]"
    by (simp add: ex_options_0)
  from ex_wf_heap ex_wf_store 1 2 3 4 ex_not_expired 6 r0 r1 8 m show ?thesis
    unfolding c_def by blast
qed

end
